theory Spec2Isabelle
  imports Main "HOL-Library.Word"
begin

section \<open>The fan-out writer: data model\<close>

text \<open>
  The Go package \<^verbatim>\<open>fanoutwriter\<close> (file \<^verbatim>\<open>fanoutwriter.go\<close>) keeps one byte
  buffer that a producer appends to and that any number of reader handles consume, each at
  its own offset. Every exported operation runs under the writer's mutex, so an operation is
  one atomic transition of the shared state; the embedding passes that state explicitly.

  Go's \<^verbatim>\<open>int\<close> is modelled by \<^typ>\<open>int\<close>: offsets only grow by the number of bytes
  handled, and the model covers runs in which they stay below \<open>2^63\<close>.

  Byte slices are modelled as values (lists). The code shares a backing array with its
  caller in two places: \<^verbatim>\<open>NewFanoutWriter\<close> keeps the slice \<^verbatim>\<open>c.Buf\<close>, and
  \<^verbatim>\<open>Write\<close> keeps \<^verbatim>\<open>p[len(p)-Limit:]\<close> when \<^verbatim>\<open>len(p)\<close> reaches the limit. A caller
  that overwrites such an array afterwards changes the buffered bytes, which the model does
  not show. In every other branch \<^verbatim>\<open>Write\<close> copies its input with \<^verbatim>\<open>append\<close>. A
  result about buffered bytes over several calls is therefore stated for runs of a writer
  made without an initial buffer in which every write is shorter than the limit; there no
  array is shared and the model is exact.
\<close>

type_synonym byte = "8 word"

text \<open>The three error values the package returns: its own \<^verbatim>\<open>ErrFellBehind\<close>, and
  \<^verbatim>\<open>io.ErrClosedPipe\<close> and \<^verbatim>\<open>io.EOF\<close> of the standard library.\<close>

datatype err = ErrFellBehind | ErrClosedPipe | EOF

text \<open>How a call ends: it panics (a run-time abort of the Go program), it suspends on the
  condition variable (\<^verbatim>\<open>update.Wait()\<close>, only in \<^verbatim>\<open>Read\<close>), or it returns.\<close>

datatype 'a outcome = Panics | Blocks | Returns 'a

record FanoutWriterConfig =
  Buf :: "byte list"
  Limit :: int
  ReadFromStart :: bool

text \<open>
  The struct \<^verbatim>\<open>fwriter\<close>. The field \<^verbatim>\<open>c\<close> is \<open>cfg\<close> here. The Go map
  \<^verbatim>\<open>clients map[*client]struct{}\<close> is a set of pointers to \<^verbatim>\<open>client\<close> structs; the
  model keeps the client objects in a store \<open>client_off\<close> (the \<^verbatim>\<open>off\<close> field of every
  client ever allocated, a handle being its index) and the registered handles in the list
  \<open>clients\<close>, which stands for the map's keys in the order one iteration visits them.
  A deregistered handle keeps its object, as in Go.
\<close>

record fwriter =
  buf :: "byte list"
  cfg :: FanoutWriterConfig
  off :: int
  clients :: "nat list"
  closed :: bool
  client_off :: "int list"

text \<open>The slice expression \<^verbatim>\<open>s[i:]\<close>: Go panics unless \<open>0 \<le> i \<le> len(s)\<close>.\<close>

definition slice_from :: "'a list \<Rightarrow> int \<Rightarrow> 'a list option" where
  "slice_from s i = (if 0 \<le> i \<and> i \<le> int (length s) then Some (drop (nat i) s) else None)"

section \<open>Operations\<close>

definition NewFanoutWriter :: "FanoutWriterConfig \<Rightarrow> fwriter" where
  "NewFanoutWriter c =
     \<lparr>buf = Buf c,
      cfg = c,
      off = (if \<not> ReadFromStart c then int (length (Buf c)) else 0),
      clients = [],
      closed = False,
      client_off = []\<rparr>"

definition NewDefaultFanoutWriter :: fwriter where
  "NewDefaultFanoutWriter = NewFanoutWriter \<lparr>Buf = [], Limit = 0, ReadFromStart = False\<rparr>"

text \<open>\<^verbatim>\<open>fwriter.Write\<close>: the result is the new state, the count \<open>n\<close> and the error.\<close>

definition fwriter_Write :: "fwriter \<Rightarrow> byte list \<Rightarrow> (fwriter \<times> int \<times> err option) outcome" where
  "fwriter_Write f p =
     (let blen = int (length p) in
      if blen = 0 then Returns (f, 0, None)
      else if closed f then Returns (f, 0, Some ErrClosedPipe)
      else if \<not> ReadFromStart (cfg f) \<and> length (clients f) = 0 then Returns (f, blen, None)
      else if Limit (cfg f) \<noteq> 0 then
        (if Limit (cfg f) > blen then
           (let invalidBytes = int (length (buf f)) + blen - Limit (cfg f) in
            if invalidBytes > 0 then
              (case slice_from (buf f) invalidBytes of
                 None \<Rightarrow> Panics
               | Some b \<Rightarrow> Returns (f\<lparr>buf := b @ p, off := off f + invalidBytes\<rparr>, blen, None))
            else Returns (f\<lparr>buf := buf f @ p\<rparr>, blen, None))
         else
           (case slice_from p (int (length p) - Limit (cfg f)) of
              None \<Rightarrow> Panics
            | Some b \<Rightarrow> Returns (f\<lparr>off := off f + int (length (buf f)), buf := b\<rparr>, blen, None)))
      else Returns (f\<lparr>buf := buf f @ p\<rparr>, blen, None))"

text \<open>\<^verbatim>\<open>fwriter.Close\<close>.\<close>

definition fwriter_Close :: "fwriter \<Rightarrow> fwriter \<times> err option" where
  "fwriter_Close f = (f\<lparr>closed := True\<rparr>, None)"

text \<open>The loop of \<^verbatim>\<open>updateOff\<close> over the registered clients, from the start value
  \<^verbatim>\<open>len(f.buf)\<close>.\<close>

fun offJump_loop :: "fwriter \<Rightarrow> nat list \<Rightarrow> int \<Rightarrow> int" where
  "offJump_loop f [] offJump = offJump"
| "offJump_loop f (c # cs) offJump =
     (let offDiff = client_off f ! c - off f in
      offJump_loop f cs (if offDiff < offJump then offDiff else offJump))"

definition updateOff :: "fwriter \<Rightarrow> fwriter outcome" where
  "updateOff f =
     (if \<not> ReadFromStart (cfg f) then
        (let offJump = offJump_loop f (clients f) (int (length (buf f))) in
         case slice_from (buf f) offJump of
           None \<Rightarrow> Panics
         | Some b \<Rightarrow> Returns (f\<lparr>buf := b, off := off f + offJump\<rparr>))
      else Returns f)"

text \<open>\<^verbatim>\<open>fwriter.NewReader\<close>: the new client object is allocated at the end of the store
  and its handle is returned with the new state.\<close>

definition NewReader :: "fwriter \<Rightarrow> (fwriter \<times> nat) outcome" where
  "NewReader f =
     (if closed f then Panics
      else
        (let off0 = (if \<not> ReadFromStart (cfg f) then off f + int (length (buf f)) else off f);
             c = length (client_off f)
         in Returns (f\<lparr>client_off := client_off f @ [off0],
                       clients := List.insert c (clients f)\<rparr>, c)))"

text \<open>
  \<^verbatim>\<open>client.Read\<close> with a destination of length \<open>plen\<close>; the bytes copied into the
  destination are returned, their number being Go's \<open>n\<close>. A handle that names no client
  object is a nil pointer, whose dereference panics. When the loop reaches
  \<^verbatim>\<open>update.Wait()\<close> the call suspends with the state as it was; after a wake-up the loop
  starts again, which is a new call of this function on the state of that moment.
\<close>

definition client_Read :: "fwriter \<Rightarrow> nat \<Rightarrow> nat \<Rightarrow> (fwriter \<times> byte list \<times> err option) outcome" where
  "client_Read f c plen =
     (if length (client_off f) \<le> c then Panics
      else
        (let localoff = client_off f ! c - off f in
         if localoff > int (length (buf f)) \<or> localoff < 0 then
           Returns (f\<lparr>clients := removeAll c (clients f)\<rparr>, [], Some ErrFellBehind)
         else
           (let lbuf = drop (nat localoff) (buf f) in
            if length lbuf = 0 then
              (if closed f then Returns (f, [], Some EOF) else Blocks)
            else
              (let copied = take plen lbuf; ncopy = length copied in
               if ncopy > 0 then
                 (case updateOff (f\<lparr>client_off := (client_off f)[c := client_off f ! c + int ncopy]\<rparr>) of
                    Returns f' \<Rightarrow> Returns (f', copied, None)
                  | Blocks \<Rightarrow> Blocks
                  | Panics \<Rightarrow> Panics)
               else Returns (f, copied, None)))))"

text \<open>\<^verbatim>\<open>client.Close\<close>.\<close>

definition client_Close :: "fwriter \<Rightarrow> nat \<Rightarrow> (fwriter \<times> err option) outcome" where
  "client_Close f c =
     (if length (client_off f) \<le> c then Panics
      else
        (let f1 = f\<lparr>clients := removeAll c (clients f)\<rparr> in
         if off f1 = client_off f1 ! c then
           (case updateOff f1 of
              Returns f2 \<Rightarrow> Returns (f2, None)
            | Blocks \<Rightarrow> Blocks
            | Panics \<Rightarrow> Panics)
         else Returns (f1, None)))"

section \<open>Runs of operations\<close>

text \<open>The calls a program can make on one writer and its handles. \<open>OpRead c n\<close> is a
  \<^verbatim>\<open>Read\<close> on handle \<open>c\<close> with a destination of \<open>n\<close> bytes.\<close>

datatype op = OpWrite "byte list" | OpClose | OpNewReader | OpRead nat nat | OpCloseReader nat

text \<open>One call as a transition of the state; \<open>None\<close> when the call panics. A \<^verbatim>\<open>Read\<close>
  that suspends leaves the state as it is.\<close>

fun step :: "fwriter \<Rightarrow> op \<Rightarrow> fwriter option" where
  "step f (OpWrite p) = (case fwriter_Write f p of Returns (f', n, e) \<Rightarrow> Some f' | Blocks \<Rightarrow> Some f | Panics \<Rightarrow> None)"
| "step f OpClose = Some (fst (fwriter_Close f))"
| "step f OpNewReader = (case NewReader f of Returns (f', c) \<Rightarrow> Some f' | Blocks \<Rightarrow> Some f | Panics \<Rightarrow> None)"
| "step f (OpRead c n) = (case client_Read f c n of Returns (f', d, e) \<Rightarrow> Some f' | Blocks \<Rightarrow> Some f | Panics \<Rightarrow> None)"
| "step f (OpCloseReader c) = (case client_Close f c of Returns (f', e) \<Rightarrow> Some f' | Blocks \<Rightarrow> Some f | Panics \<Rightarrow> None)"

fun run :: "fwriter \<Rightarrow> op list \<Rightarrow> fwriter option" where
  "run f [] = Some f"
| "run f (x # xs) = (case step f x of None \<Rightarrow> None | Some f' \<Rightarrow> run f' xs)"

text \<open>The end of the retained window: the stream position after the last buffered byte.\<close>

definition tail :: "fwriter \<Rightarrow> int" where
  "tail f = off f + int (length (buf f))"

text \<open>The configuration of the package's tests with a limit: six bytes, readers starting
  at the tail (\<^verbatim>\<open>TestLimitReaderFellBehind\<close>), and the same with \<open>ReadFromStart\<close>.\<close>

definition limit6_tail :: FanoutWriterConfig where
  "limit6_tail = \<lparr>Buf = [], Limit = 6, ReadFromStart = False\<rparr>"

definition limit6_start :: FanoutWriterConfig where
  "limit6_start = \<lparr>Buf = [], Limit = 6, ReadFromStart = True\<rparr>"

text \<open>No client object lies beyond the end of the retained window.\<close>

definition within_tail :: "fwriter \<Rightarrow> bool" where
  "within_tail f = list_all (\<lambda>x. x \<le> tail f) (client_off f)"

section \<open>Notions for the claims\<close>

text \<open>The amount the specification gives for the trimming step: the smaller of the buffer
  length and the least distance of a registered reader from the base offset.\<close>

definition trim_amount :: "fwriter \<Rightarrow> int" where
  "trim_amount f =
     Min (insert (int (length (buf f))) ((\<lambda>r. client_off f ! r - off f) ` set (clients f)))"

text \<open>The retained bytes a reader has not consumed: the buffer from its offset on.\<close>

definition pending :: "fwriter \<Rightarrow> nat \<Rightarrow> byte list" where
  "pending f c = drop (nat (client_off f ! c - off f)) (buf f)"

text \<open>Every registered handle names a client object whose offset is not below the base
  offset.\<close>

definition live :: "fwriter \<Rightarrow> bool" where
  "live f = list_all (\<lambda>r. r < length (client_off f) \<and> off f \<le> client_off f ! r) (clients f)"

text \<open>The calls considered on a closed writer while reader \<open>c\<close> drains it, \<open>k\<close> being
  the number of client objects: writes, closes of the writer, reads on existing handles and
  closes of existing handles other than \<open>c\<close>. (\<open>NewReader\<close> panics on a closed writer.)\<close>

fun after_close_ok :: "nat \<Rightarrow> nat \<Rightarrow> op \<Rightarrow> bool" where
  "after_close_ok k c (OpWrite p) = True"
| "after_close_ok k c OpClose = True"
| "after_close_ok k c OpNewReader = False"
| "after_close_ok k c (OpRead r n) = (r < k)"
| "after_close_ok k c (OpCloseReader r) = (r < k \<and> r \<noteq> c)"

text \<open>What a call returns to reader \<open>c\<close>: the bytes and the error of a read on \<open>c\<close>,
  nothing for any other call.\<close>

fun answer :: "nat \<Rightarrow> fwriter \<Rightarrow> op \<Rightarrow> (byte list \<times> err option) list" where
  "answer c f (OpRead r n) =
     (if r = c then (case client_Read f r n of Returns (f', d, e) \<Rightarrow> [(d, e)] | Blocks \<Rightarrow> [] | Panics \<Rightarrow> [])
      else [])"
| "answer c f (OpWrite p) = []"
| "answer c f OpClose = []"
| "answer c f OpNewReader = []"
| "answer c f (OpCloseReader r) = []"

text \<open>The results of the reads on \<open>c\<close> along a run, in order; \<open>None\<close> when a call
  panics.\<close>

fun reads_of :: "nat \<Rightarrow> fwriter \<Rightarrow> op list \<Rightarrow> (byte list \<times> err option) list option" where
  "reads_of c f [] = Some []"
| "reads_of c f (x # xs) =
     (case step f x of
        None \<Rightarrow> None
      | Some f' \<Rightarrow> (case reads_of c f' xs of None \<Rightarrow> None | Some rest \<Rightarrow> Some (answer c f x @ rest)))"

text \<open>The destination lengths of the reads on \<open>c\<close> in a list of calls.\<close>

fun capacities :: "nat \<Rightarrow> op list \<Rightarrow> nat list" where
  "capacities c [] = []"
| "capacities c (OpRead r n # xs) = (if r = c then n # capacities c xs else capacities c xs)"
| "capacities c (OpWrite p # xs) = capacities c xs"
| "capacities c (OpClose # xs) = capacities c xs"
| "capacities c (OpNewReader # xs) = capacities c xs"
| "capacities c (OpCloseReader r # xs) = capacities c xs"

text \<open>What the specification promises a reader of a closed writer that still has the
  bytes \<open>rest\<close> to consume, for reads with the given destination lengths: each read
  returns the next bytes that fit, and a read with nothing left returns end of stream.\<close>

fun drain :: "byte list \<Rightarrow> nat list \<Rightarrow> (byte list \<times> err option) list" where
  "drain rest [] = []"
| "drain rest (n # ns) =
     (if rest = [] then ([], Some EOF) else (take n rest, None)) # drain (drop n rest) ns"

text \<open>A write that is shorter than the limit \<open>L\<close>, or any write when there is no limit
  (\<open>L = 0\<close>); every other call.\<close>

fun short_write :: "int \<Rightarrow> op \<Rightarrow> bool" where
  "short_write L (OpWrite p) = (L = 0 \<or> int (length p) < L)"
| "short_write L OpClose = True"
| "short_write L OpNewReader = True"
| "short_write L (OpRead r n) = True"
| "short_write L (OpCloseReader r) = True"

text \<open>The bytes of its input that a write reports as accepted: the first \<open>n\<close> of them,
  \<open>n\<close> being the count \<^verbatim>\<open>Write\<close> returns.\<close>

fun taken :: "fwriter \<Rightarrow> op \<Rightarrow> byte list" where
  "taken f (OpWrite p) =
     (case fwriter_Write f p of Returns (f', n, e) \<Rightarrow> take (nat n) p | Blocks \<Rightarrow> [] | Panics \<Rightarrow> [])"
| "taken f OpClose = []"
| "taken f OpNewReader = []"
| "taken f (OpRead r n) = []"
| "taken f (OpCloseReader r) = []"

text \<open>All bytes accepted by the writes of a run, in order.\<close>

fun accepted :: "fwriter \<Rightarrow> op list \<Rightarrow> byte list" where
  "accepted f [] = []"
| "accepted f (x # xs) =
     (case step f x of None \<Rightarrow> [] | Some f' \<Rightarrow> taken f x @ accepted f' xs)"

section \<open>The write path\<close>

text \<open>
  Claim C10. A write of the empty byte sequence returns success with zero bytes accepted and
  leaves the whole state as it was, in every state of the writer; in particular a closed
  writer answers an empty write with success, not with the closed-pipe error.
\<close>

theorem Write_empty_noop:
  "fwriter_Write f [] = Returns (f, 0, None)"
  by (simp add: fwriter_Write_def)

text \<open>
  Claim C7. On a closed writer, a write of a non-empty byte sequence returns the closed-pipe
  error with zero bytes accepted, and the state (buffer, base offset, reader offsets and
  everything else) is unchanged.
\<close>

theorem Write_after_close:
  assumes "closed f" and "p \<noteq> []"
  shows "fwriter_Write f p = Returns (f, 0, Some ErrClosedPipe)"
  using assms by (simp add: fwriter_Write_def Let_def)

theorem Write_after_close_witness:
  "closed (fst (fwriter_Close NewDefaultFanoutWriter)) \<and> [1, 2, 3 :: byte] \<noteq> []
   \<and> fwriter_Write (fst (fwriter_Close NewDefaultFanoutWriter)) [1, 2, 3]
       = Returns (fst (fwriter_Close NewDefaultFanoutWriter), 0, Some ErrClosedPipe)"
proof -
  have c: "closed (fst (fwriter_Close NewDefaultFanoutWriter))"
    by (simp add: fwriter_Close_def)
  have n: "[1, 2, 3 :: byte] \<noteq> []" by simp
  show ?thesis using c n Write_after_close [OF c n] by simp
qed

text \<open>
  Claim C9. With \<open>ReadFromStart\<close> false, the writer open and no reader registered, a write
  of any byte sequence reports full success (the count is the input length, no error) and
  the state is unchanged: the bytes are dropped. The limit plays no role.
\<close>

theorem Write_no_readers_discards:
  assumes "\<not> ReadFromStart (cfg f)" and "\<not> closed f" and "clients f = []"
  shows "fwriter_Write f p = Returns (f, int (length p), None)"
  using assms by (simp add: fwriter_Write_def Let_def)

theorem Write_no_readers_discards_witness:
  "\<not> ReadFromStart (cfg (NewFanoutWriter \<lparr>Buf = [], Limit = 6, ReadFromStart = False\<rparr>))
   \<and> \<not> closed (NewFanoutWriter \<lparr>Buf = [], Limit = 6, ReadFromStart = False\<rparr>)
   \<and> clients (NewFanoutWriter \<lparr>Buf = [], Limit = 6, ReadFromStart = False\<rparr>) = []
   \<and> fwriter_Write (NewFanoutWriter \<lparr>Buf = [], Limit = 6, ReadFromStart = False\<rparr>)
        [1, 2, 3, 4, 5, 6, 7, 8, 9, 10]
       = Returns (NewFanoutWriter \<lparr>Buf = [], Limit = 6, ReadFromStart = False\<rparr>, 10, None)"
proof -
  let ?f = "NewFanoutWriter \<lparr>Buf = [], Limit = 6, ReadFromStart = False\<rparr>"
  have a: "\<not> ReadFromStart (cfg ?f)" by (simp add: NewFanoutWriter_def)
  have b: "\<not> closed ?f" by (simp add: NewFanoutWriter_def)
  have c: "clients ?f = []" by (simp add: NewFanoutWriter_def)
  show ?thesis
    using a b c Write_no_readers_discards [OF a b c, of "[1, 2, 3, 4, 5, 6, 7, 8, 9, 10]"]
    by simp
qed

section \<open>Reader registration\<close>

text \<open>
  Claim C8. On an open writer, \<open>NewReader\<close> returns a handle whose offset is the base
  offset when \<open>ReadFromStart\<close> is set and the tail (base offset plus buffer length)
  otherwise; the handle is registered; it is a new handle, the objects of the handles that
  existed keep their offsets, the handles registered before stay registered and no other
  handle becomes registered; buffer, base offset, closed flag and configuration are as before.
\<close>

theorem NewReader_initial_offset:
  assumes "\<not> closed f"
  shows "\<exists>f' c. NewReader f = Returns (f', c)
           \<and> client_off f' ! c = (if ReadFromStart (cfg f) then off f
                                   else off f + int (length (buf f)))
           \<and> c \<in> set (clients f')
           \<and> c = length (client_off f)
           \<and> take (length (client_off f)) (client_off f') = client_off f
           \<and> length (client_off f') = Suc (length (client_off f))
           \<and> set (clients f') = insert c (set (clients f))
           \<and> buf f' = buf f \<and> off f' = off f \<and> closed f' = closed f \<and> cfg f' = cfg f"
  using assms by (simp add: NewReader_def Let_def nth_append)

theorem NewReader_initial_offset_witness:
  "\<not> closed \<lparr>buf = [1, 2, 3], cfg = \<lparr>Buf = [], Limit = 0, ReadFromStart = False\<rparr>, off = 2,
            clients = [0], closed = False, client_off = [3]\<rparr>
   \<and> NewReader \<lparr>buf = [1, 2, 3], cfg = \<lparr>Buf = [], Limit = 0, ReadFromStart = False\<rparr>, off = 2,
            clients = [0], closed = False, client_off = [3]\<rparr>
     = Returns (\<lparr>buf = [1, 2, 3], cfg = \<lparr>Buf = [], Limit = 0, ReadFromStart = False\<rparr>,
            off = 2, clients = [1, 0], closed = False, client_off = [3, 5]\<rparr>, 1)
   \<and> \<not> closed \<lparr>buf = [1, 2, 3], cfg = \<lparr>Buf = [], Limit = 0, ReadFromStart = True\<rparr>, off = 2,
            clients = [0], closed = False, client_off = [3]\<rparr>
   \<and> NewReader \<lparr>buf = [1, 2, 3], cfg = \<lparr>Buf = [], Limit = 0, ReadFromStart = True\<rparr>, off = 2,
            clients = [0], closed = False, client_off = [3]\<rparr>
     = Returns (\<lparr>buf = [1, 2, 3], cfg = \<lparr>Buf = [], Limit = 0, ReadFromStart = True\<rparr>,
            off = 2, clients = [1, 0], closed = False, client_off = [3, 2]\<rparr>, 1)"
proof -
  let ?t = "\<lparr>buf = [1, 2, 3], cfg = \<lparr>Buf = [], Limit = 0, ReadFromStart = False\<rparr>, off = 2,
             clients = [0], closed = False, client_off = [3]\<rparr>"
  let ?s = "\<lparr>buf = [1, 2, 3], cfg = \<lparr>Buf = [], Limit = 0, ReadFromStart = True\<rparr>, off = 2,
             clients = [0], closed = False, client_off = [3]\<rparr>"
  have a: "\<not> closed ?t" by simp
  have b: "\<not> closed ?s" by simp
  from NewReader_initial_offset [OF a] obtain t' ct where
    t: "NewReader ?t = Returns (t', ct)"
    and to: "client_off t' ! ct = (if ReadFromStart (cfg ?t) then off ?t
                                    else off ?t + int (length (buf ?t)))"
    and tc: "ct = length (client_off ?t)"
    by blast
  from NewReader_initial_offset [OF b] obtain s' cs where
    s: "NewReader ?s = Returns (s', cs)"
    and so: "client_off s' ! cs = (if ReadFromStart (cfg ?s) then off ?s
                                    else off ?s + int (length (buf ?s)))"
    and sc: "cs = length (client_off ?s)"
    by blast
  have t5: "client_off t' ! 1 = 5" using to tc by simp
  have s2: "client_off s' ! 1 = 2" using so sc by simp
  have "NewReader ?t = Returns (?t\<lparr>client_off := [3, 5], clients := [1, 0]\<rparr>, 1)"
    using t t5 tc by (auto simp: NewReader_def Let_def)
  moreover have "NewReader ?s = Returns (?s\<lparr>client_off := [3, 2], clients := [1, 0]\<rparr>, 1)"
    using s s2 sc by (auto simp: NewReader_def Let_def)
  ultimately show ?thesis by simp
qed

section \<open>Facts about the operations\<close>

lemmas fw_defs = NewFanoutWriter_def NewDefaultFanoutWriter_def limit6_tail_def limit6_start_def
  NewReader_def fwriter_Write_def fwriter_Close_def client_Read_def client_Close_def
  updateOff_def slice_from_def Let_def

text \<open>The loop of \<open>updateOff\<close> computes a minimum, whatever the order of the clients.\<close>

lemma offJump_loop_Min:
  "offJump_loop f cs j = Min (insert j ((\<lambda>c. client_off f ! c - off f) ` set cs))"
proof (induction cs arbitrary: j)
  case Nil
  show ?case by simp
next
  case (Cons c cs)
  let ?d = "client_off f ! c - off f"
  let ?S = "(\<lambda>c. client_off f ! c - off f) ` set cs"
  have fin: "finite ?S" by simp
  have e: "(if ?d < j then ?d else j) = min ?d j" by (simp add: min_def)
  have "offJump_loop f (c # cs) j = offJump_loop f cs (min ?d j)"
    by (simp only: offJump_loop.simps Let_def e)
  also have "\<dots> = Min (insert (min ?d j) ?S)"
    by (rule Cons.IH)
  also have "\<dots> = Min (insert j (insert ?d ?S))"
  proof (cases "?S = {}")
    case True
    then show ?thesis by (simp add: min.commute)
  next
    case False
    then show ?thesis using fin by (simp add: min.assoc min.commute)
  qed
  finally show ?case by (simp add: insert_commute)
qed

lemma offJump_loop_le: "offJump_loop f cs j \<le> j"
  by (simp add: offJump_loop_Min)

lemma offJump_loop_le_client:
  "c \<in> set cs \<Longrightarrow> offJump_loop f cs j \<le> client_off f ! c - off f"
  by (simp add: offJump_loop_Min)

lemma offJump_loop_lower:
  assumes "l \<le> j" and "\<forall>c\<in>set cs. l \<le> client_off f ! c - off f"
  shows "l \<le> offJump_loop f cs j"
  using assms by (simp add: offJump_loop_Min)

lemma updateOff_Returns:
  assumes "updateOff f = Returns f'"
  shows "client_off f' = client_off f \<and> clients f' = clients f \<and> closed f' = closed f
         \<and> cfg f' = cfg f \<and> off f \<le> off f' \<and> tail f' = tail f
         \<and> buf f' = drop (nat (off f' - off f)) (buf f)"
  using assms
  by (auto simp: updateOff_def slice_from_def tail_def Let_def split: if_splits)

lemma Write_Returns:
  assumes "fwriter_Write f p = Returns (f', n, e)"
  shows "client_off f' = client_off f \<and> clients f' = clients f \<and> closed f' = closed f
         \<and> cfg f' = cfg f \<and> off f \<le> off f' \<and> tail f \<le> tail f'"
  using assms
  by (auto simp: fwriter_Write_def slice_from_def tail_def Let_def split: if_splits)


lemma Read_Returns:
  assumes "client_Read f c n = Returns (f', d, e)"
  shows "length (client_off f') = length (client_off f) \<and> closed f' = closed f
         \<and> cfg f' = cfg f \<and> off f \<le> off f' \<and> tail f' = tail f"
  using assms
  by (auto simp: client_Read_def Let_def tail_def split: if_splits outcome.splits
           dest!: updateOff_Returns)

lemma Read_Returns_other:
  assumes "client_Read f c n = Returns (f', d, e)" and "r \<noteq> c"
  shows "client_off f' ! r = client_off f ! r"
  using assms
  by (auto simp: client_Read_def Let_def split: if_splits outcome.splits
           dest!: updateOff_Returns)

lemma Read_Returns_behind:
  assumes "client_Read f c n = Returns (f', d, e)" and "client_off f ! c < off f"
  shows "client_off f' = client_off f"
  using assms
  by (auto simp: client_Read_def Let_def split: if_splits outcome.splits)

lemma Read_Returns_tail:
  assumes "client_Read f c n = Returns (f', d, e)" and "within_tail f"
  shows "within_tail f'"
proof -
  have len: "length (client_off f') = length (client_off f)" and t: "tail f' = tail f"
    using Read_Returns [OF assms(1)] by simp_all
  have "client_off f' ! r \<le> tail f" if r: "r < length (client_off f)" for r
  proof (cases "r = c")
    case False
    then show ?thesis
      using Read_Returns_other [OF assms(1) False] assms(2) r
      by (simp add: within_tail_def list_all_length)
  next
    case True
    then show ?thesis
      using assms r
      by (auto simp: client_Read_def Let_def tail_def within_tail_def list_all_length
               split: if_splits outcome.splits dest!: updateOff_Returns)
  qed
  then show ?thesis by (simp add: within_tail_def list_all_length len t)
qed

lemma Close_Returns:
  assumes "client_Close f c = Returns (f', e)"
  shows "client_off f' = client_off f \<and> closed f' = closed f
         \<and> cfg f' = cfg f \<and> off f \<le> off f' \<and> tail f' = tail f"
  using assms
  by (auto simp: client_Close_def Let_def tail_def split: if_splits outcome.splits
           dest!: updateOff_Returns)

lemma NewReader_Returns:
  assumes "NewReader f = Returns (f', c)"
  shows "client_off f' = client_off f @ [if ReadFromStart (cfg f) then off f else tail f]
         \<and> closed f' = closed f \<and> cfg f' = cfg f \<and> off f' = off f \<and> buf f' = buf f"
  using assms
  by (auto simp: NewReader_def Let_def tail_def split: if_splits)

lemma step_within_tail:
  assumes "step f x = Some f'" and "within_tail f"
  shows "within_tail f'"
proof (cases x)
  case (OpWrite p)
  then show ?thesis
    using assms
    by (auto simp: within_tail_def list_all_length split: outcome.splits
             dest!: Write_Returns)
next
  case OpClose
  then show ?thesis
    using assms by (auto simp: within_tail_def fwriter_Close_def tail_def)
next
  case OpNewReader
  then show ?thesis
    using assms
    by (auto simp: within_tail_def tail_def split: outcome.splits dest!: NewReader_Returns)
next
  case (OpRead c n)
  then show ?thesis
    using assms by (auto split: outcome.splits dest: Read_Returns_tail)
next
  case (OpCloseReader c)
  then show ?thesis
    using assms
    by (auto simp: within_tail_def split: outcome.splits dest!: Close_Returns)
qed

lemma run_within_tail:
  "run f xs = Some f' \<Longrightarrow> within_tail f \<Longrightarrow> within_tail f'"
  by (induction xs arbitrary: f) (auto split: option.splits dest: step_within_tail)

lemma step_behind:
  assumes "step f x = Some f'" and "c < length (client_off f)" and "client_off f ! c < off f"
  shows "c < length (client_off f') \<and> client_off f' ! c < off f'"
proof (cases x)
  case (OpWrite p)
  then show ?thesis
    using assms by (auto split: outcome.splits dest!: Write_Returns)
next
  case OpClose
  then show ?thesis using assms by (auto simp: fwriter_Close_def)
next
  case OpNewReader
  then show ?thesis
    using assms by (auto simp: nth_append split: outcome.splits dest!: NewReader_Returns)
next
  case (OpRead r n)
  show ?thesis
  proof (cases "client_Read f r n")
    case (Returns t)
    obtain f1 d e where t: "t = (f1, d, e)" by (cases t)
    have eq: "f' = f1" using assms(1) OpRead Returns t by simp
    have R: "client_Read f r n = Returns (f', d, e)" using Returns t eq by simp
    have same: "client_off f' ! c = client_off f ! c"
    proof (cases "r = c")
      case True
      then show ?thesis using Read_Returns_behind [of f c n f' d e] R assms(3) by simp
    next
      case False
      then show ?thesis using Read_Returns_other [OF R, of c] by simp
    qed
    show ?thesis using Read_Returns [OF R] same assms(2,3) by simp
  qed (use assms OpRead in auto)
next
  case (OpCloseReader r)
  then show ?thesis
    using assms by (auto split: outcome.splits dest!: Close_Returns)
qed

lemma run_behind:
  "run f xs = Some f' \<Longrightarrow> c < length (client_off f) \<Longrightarrow> client_off f ! c < off f
   \<Longrightarrow> c < length (client_off f') \<and> client_off f' ! c < off f'"
proof (induction xs arbitrary: f)
  case Nil
  then show ?case by simp
next
  case (Cons x xs)
  from Cons.prems(1) obtain f1 where s: "step f x = Some f1" and r: "run f1 xs = Some f'"
    by (auto split: option.splits)
  from step_behind [OF s Cons.prems(2,3)] Cons.IH [OF r] show ?case by simp
qed

lemma within_tail_init: "within_tail (NewFanoutWriter c0)"
  by (simp add: within_tail_def NewFanoutWriter_def)

lemma Read_behind:
  assumes "c < length (client_off f)" and "client_off f ! c < off f"
  shows "client_Read f c n = Returns (f\<lparr>clients := removeAll c (clients f)\<rparr>, [], Some ErrFellBehind)"
  using assms by (simp add: client_Read_def Let_def)

section \<open>Falling behind\<close>

text \<open>
  Falling behind is final. In a state reached from a new writer by any run of calls, take a
  handle whose offset is below the base offset or beyond the end of the buffer, which is
  the test \<open>Read\<close> makes. After any further run of calls (none, or any number of writes,
  reads of this or other handles, closes), a read on that handle returns zero bytes with
  \<open>ErrFellBehind\<close> and leaves the handle out of the reader set: the first read after
  falling behind and every later one. This holds for every configuration.
\<close>

theorem fell_behind_is_permanent:
  assumes reach: "run (NewFanoutWriter c0) before = Some f"
    and handle: "c < length (client_off f)"
    and outrun: "client_off f ! c < off f \<or> off f + int (length (buf f)) < client_off f ! c"
    and later: "run f after = Some f'"
  shows "client_Read f' c n
           = Returns (f'\<lparr>clients := removeAll c (clients f')\<rparr>, [], Some ErrFellBehind)"
proof -
  have "within_tail f" using run_within_tail [OF reach within_tail_init] .
  then have "client_off f ! c \<le> tail f"
    using handle by (simp add: within_tail_def list_all_length)
  with outrun have "client_off f ! c < off f" by (simp add: tail_def)
  from run_behind [OF later handle this] show ?thesis by (simp add: Read_behind)
qed

theorem fell_behind_is_permanent_witness:
  "run (NewFanoutWriter limit6_tail) [OpNewReader, OpWrite [1, 2, 3, 4, 5], OpWrite [6, 7, 8, 9, 10]]
     = Some \<lparr>buf = [5, 6, 7, 8, 9, 10], cfg = limit6_tail, off = 4, clients = [0],
             closed = False, client_off = [0]\<rparr>
   \<and> run \<lparr>buf = [5, 6, 7, 8, 9, 10], cfg = limit6_tail, off = 4, clients = [0],
          closed = False, client_off = [0]\<rparr> [OpRead 0 10, OpNewReader, OpWrite [11]]
     = Some \<lparr>buf = [6, 7, 8, 9, 10, 11], cfg = limit6_tail, off = 5, clients = [1],
             closed = False, client_off = [0, 10]\<rparr>
   \<and> client_Read \<lparr>buf = [6, 7, 8, 9, 10, 11], cfg = limit6_tail, off = 5, clients = [1],
          closed = False, client_off = [0, 10]\<rparr> 0 10
     = Returns (\<lparr>buf = [6, 7, 8, 9, 10, 11], cfg = limit6_tail, off = 5, clients = [1],
          closed = False, client_off = [0, 10]\<rparr>, [], Some ErrFellBehind)"
proof -
  let ?f = "\<lparr>buf = [5, 6, 7, 8, 9, 10], cfg = limit6_tail, off = 4, clients = [0],
             closed = False, client_off = [0]\<rparr>"
  let ?f' = "\<lparr>buf = [6, 7, 8, 9, 10, 11], cfg = limit6_tail, off = 5, clients = [1],
             closed = False, client_off = [0, 10]\<rparr>"
  have a: "run (NewFanoutWriter limit6_tail)
             [OpNewReader, OpWrite [1, 2, 3, 4, 5], OpWrite [6, 7, 8, 9, 10]] = Some ?f"
    by (simp add: fw_defs)
  have b: "(0::nat) < length (client_off ?f)" by simp
  have c: "client_off ?f ! 0 < off ?f \<or> off ?f + int (length (buf ?f)) < client_off ?f ! 0"
    by simp
  have d: "run ?f [OpRead 0 10, OpNewReader, OpWrite [11]] = Some ?f'"
    by (simp add: fw_defs)
  show ?thesis
    using a d fell_behind_is_permanent [OF a b c d, of 10] by simp
qed

text \<open>
  Claim C3 says that, with a limit \<open>L\<close> and readers starting at the tail, a registered
  reader that is more than \<open>L\<close> bytes behind the latest accepted write gets
  \<open>ErrFellBehind\<close> from its next read; it takes this to be the same as the reader's offset
  lying outside the buffer. The code does not keep the two the same. With a limit of six
  bytes a reader is registered at offset 0 and one write of ten bytes is accepted in full
  (the caller leaves the slice it wrote untouched afterwards).
  The reader has consumed nothing and is ten bytes behind, but the write has added only the
  old buffer length, 0, to the base offset, so the reader's offset is still inside the
  buffer: its read returns the last six bytes without error and the first four are lost in
  silence. The other limited branch of \<open>Write\<close> advances the base offset by
  \<^verbatim>\<open>len(f.buf) + len(p) - Limit\<close>, which is 4 here and would put the reader behind.
  When the offset does lie outside the buffer the read behaves as claimed
  (\<open>fell_behind_is_permanent\<close>).
\<close>

theorem oversize_write_hides_fall_behind:
  "run (NewFanoutWriter limit6_tail) [OpNewReader]
     = Some \<lparr>buf = [], cfg = limit6_tail, off = 0, clients = [0], closed = False,
             client_off = [0]\<rparr>
   \<and> fwriter_Write \<lparr>buf = [], cfg = limit6_tail, off = 0, clients = [0], closed = False,
          client_off = [0]\<rparr> [1, 2, 3, 4, 5, 6, 7, 8, 9, 10]
     = Returns (\<lparr>buf = [5, 6, 7, 8, 9, 10], cfg = limit6_tail, off = 0, clients = [0],
          closed = False, client_off = [0]\<rparr>, 10, None)
   \<and> client_Read \<lparr>buf = [5, 6, 7, 8, 9, 10], cfg = limit6_tail, off = 0, clients = [0],
          closed = False, client_off = [0]\<rparr> 0 10
     = Returns (\<lparr>buf = [], cfg = limit6_tail, off = 6, clients = [0],
          closed = False, client_off = [6]\<rparr>, [5, 6, 7, 8, 9, 10], None)"
  by (simp add: fw_defs)

section \<open>Writes that outrun a reader\<close>

text \<open>
  Claim C1, as stated, fails. With a limit of six bytes and readers starting at the tail, a
  reader is registered at offset 0 and five bytes are written. A second write of five bytes
  would move the base offset to 4, past the reader's offset 0. The write is not rejected: it
  returns 5 and no error, and the buffer and the base offset change.
\<close>

theorem Write_strands_reader_counterexample:
  "run (NewFanoutWriter limit6_tail) [OpNewReader, OpWrite [1, 2, 3, 4, 5]]
     = Some \<lparr>buf = [1, 2, 3, 4, 5], cfg = limit6_tail, off = 0, clients = [0],
             closed = False, client_off = [0]\<rparr>
   \<and> fwriter_Write \<lparr>buf = [1, 2, 3, 4, 5], cfg = limit6_tail, off = 0, clients = [0],
          closed = False, client_off = [0]\<rparr> [6, 7, 8, 9, 10]
     = Returns (\<lparr>buf = [5, 6, 7, 8, 9, 10], cfg = limit6_tail, off = 4, clients = [0],
          closed = False, client_off = [0]\<rparr>, 5, None)"
  by (simp add: fw_defs)

text \<open>
  Claim C1, amended. With a limit \<open>L > 0\<close>, \<open>ReadFromStart\<close> false, the writer open and
  at least one reader registered, a non-empty write shorter than \<open>L\<close> is accepted in full
  whatever the readers' offsets are: it returns the input length and no error, the buffer
  becomes the last \<open>L\<close> bytes of the old buffer followed by the input (all of them when
  there are fewer), the base offset advances by the number of bytes dropped from the front,
  and the reader set and the reader offsets are unchanged.
\<close>

theorem Write_bounded_tail_accepts:
  assumes "0 < Limit (cfg f)" and "\<not> ReadFromStart (cfg f)" and "\<not> closed f"
    and "clients f \<noteq> []" and "p \<noteq> []" and "int (length p) < Limit (cfg f)"
  shows "fwriter_Write f p
           = Returns (f\<lparr>buf := drop (length (buf f @ p) - nat (Limit (cfg f))) (buf f @ p),
                        off := off f + int (length (buf f @ p) - nat (Limit (cfg f)))\<rparr>,
                      int (length p), None)"
proof -
  let ?inv = "int (length (buf f)) + int (length p) - Limit (cfg f)"
  have n: "length (buf f @ p) - nat (Limit (cfg f)) = nat ?inv"
    using assms(1) by simp
  show ?thesis
  proof (cases "0 < ?inv")
    case True
    have le: "nat ?inv \<le> length (buf f)" using assms(6) True by simp
    have s: "slice_from (buf f) ?inv = Some (drop (nat ?inv) (buf f))"
      using True le by (simp add: slice_from_def)
    have pos: "0 < int (length (buf f)) + int (length p) - Limit (cfg f)" using True .
    show ?thesis
      unfolding n using assms True le s
      by (simp add: fwriter_Write_def Let_def)
  next
    case False
    then have z: "nat ?inv = 0" by simp
    show ?thesis
      unfolding n z using assms False
      by (simp add: fwriter_Write_def Let_def)
  qed
qed

theorem Write_bounded_tail_accepts_witness:
  "fwriter_Write \<lparr>buf = [1, 2, 3, 4, 5], cfg = limit6_tail, off = 0, clients = [0],
          closed = False, client_off = [0]\<rparr> [6, 7, 8, 9, 10]
     = Returns (\<lparr>buf = [5, 6, 7, 8, 9, 10], cfg = limit6_tail, off = 4, clients = [0],
          closed = False, client_off = [0]\<rparr>, 5, None)"
proof -
  let ?f = "\<lparr>buf = [1, 2, 3, 4, 5], cfg = limit6_tail, off = 0, clients = [0],
             closed = False, client_off = [0]\<rparr>"
  have a: "0 < Limit (cfg ?f)" by (simp add: limit6_tail_def)
  have b: "\<not> ReadFromStart (cfg ?f)" by (simp add: limit6_tail_def)
  have c: "\<not> closed ?f" by simp
  have d: "clients ?f \<noteq> []" by simp
  have e: "[6, 7, 8, 9, 10 :: byte] \<noteq> []" by simp
  have g: "int (length [6, 7, 8, 9, 10 :: byte]) < Limit (cfg ?f)" by (simp add: limit6_tail_def)
  show ?thesis
    using Write_bounded_tail_accepts [OF a b c d e g] by (simp add: limit6_tail_def)
qed




section \<open>A panic in the trimming step\<close>

text \<open>
  Claim C2 says that no read and no reader close aborts in a reachable state. The code does
  abort. With a limit of six bytes and readers starting at the tail, two readers are
  registered at offset 0; five bytes are written; reader 1 reads them; five more bytes are
  written, which moves the base offset to 4 and leaves reader 0 behind it. The next read of
  reader 1 copies five bytes and calls \<open>updateOff\<close>, whose loop computes
  \<open>offJump = 0 - 4\<close>, and the slice expression \<^verbatim>\<open>f.buf[offJump:]\<close> panics. The same
  happens when reader 1 has read four bytes, so that its offset equals the base offset, and
  is then closed.
\<close>

theorem updateOff_panics_in_reachable_state:
  "run (NewFanoutWriter limit6_tail)
       [OpNewReader, OpNewReader, OpWrite [1, 2, 3, 4, 5], OpRead 1 10, OpWrite [6, 7, 8, 9, 10]]
     = Some \<lparr>buf = [5, 6, 7, 8, 9, 10], cfg = limit6_tail, off = 4, clients = [1, 0],
             closed = False, client_off = [0, 5]\<rparr>
   \<and> client_Read \<lparr>buf = [5, 6, 7, 8, 9, 10], cfg = limit6_tail, off = 4, clients = [1, 0],
          closed = False, client_off = [0, 5]\<rparr> 1 10 = Panics
   \<and> run (NewFanoutWriter limit6_tail)
       [OpNewReader, OpNewReader, OpWrite [1, 2, 3, 4, 5], OpRead 1 4, OpWrite [6, 7, 8, 9, 10]]
     = Some \<lparr>buf = [5, 6, 7, 8, 9, 10], cfg = limit6_tail, off = 4, clients = [1, 0],
             closed = False, client_off = [0, 4]\<rparr>
   \<and> client_Close \<lparr>buf = [5, 6, 7, 8, 9, 10], cfg = limit6_tail, off = 4, clients = [1, 0],
          closed = False, client_off = [0, 4]\<rparr> 1 = Panics"
  by (simp add: fw_defs)

section \<open>Trimming\<close>

text \<open>
  Claim C5, as stated, fails: a reader close does not always run the trimming step. A
  writer is made with the initial bytes 1, 2 and readers starting at the tail, one reader is
  registered (at offset 4, the base offset being 2) and closed. The close only removes it:
  the two bytes stay in the buffer although no reader remains, where the trimming step on
  that state would release them.
\<close>

theorem Close_skips_trimming_counterexample:
  "run (NewFanoutWriter \<lparr>Buf = [1, 2], Limit = 0, ReadFromStart = False\<rparr>) [OpNewReader]
     = Some \<lparr>buf = [1, 2], cfg = \<lparr>Buf = [1, 2], Limit = 0, ReadFromStart = False\<rparr>, off = 2,
             clients = [0], closed = False, client_off = [4]\<rparr>
   \<and> client_Close \<lparr>buf = [1, 2], cfg = \<lparr>Buf = [1, 2], Limit = 0, ReadFromStart = False\<rparr>,
          off = 2, clients = [0], closed = False, client_off = [4]\<rparr> 0
     = Returns (\<lparr>buf = [1, 2], cfg = \<lparr>Buf = [1, 2], Limit = 0, ReadFromStart = False\<rparr>,
          off = 2, clients = [], closed = False, client_off = [4]\<rparr>, None)
   \<and> updateOff \<lparr>buf = [1, 2], cfg = \<lparr>Buf = [1, 2], Limit = 0, ReadFromStart = False\<rparr>,
          off = 2, clients = [], closed = False, client_off = [4]\<rparr>
     = Returns \<lparr>buf = [], cfg = \<lparr>Buf = [1, 2], Limit = 0, ReadFromStart = False\<rparr>,
          off = 4, clients = [], closed = False, client_off = [4]\<rparr>"
  by (simp add: fw_defs)

text \<open>
  Claim C5, amended. The trimming step \<open>updateOff\<close>, with \<open>ReadFromStart\<close> false, drops
  \<open>trim_amount\<close> bytes from the front of the buffer and adds that number to the base offset
  whenever the number is not negative; with no reader registered it releases the whole
  buffer; with \<open>ReadFromStart\<close> set it changes nothing. A read that copies at least one
  byte returns the state that the trimming step produces from the state with the reader's
  offset advanced by the number of bytes copied. A reader close removes the handle and then
  runs the trimming step if the handle's offset equals the base offset, and only removes the
  handle otherwise.
\<close>

theorem trimming_rule:
  "(\<not> ReadFromStart (cfg f) \<and> 0 \<le> trim_amount f \<longrightarrow>
      updateOff f = Returns (f\<lparr>buf := drop (nat (trim_amount f)) (buf f),
                               off := off f + trim_amount f\<rparr>))
   \<and> (\<not> ReadFromStart (cfg f) \<and> clients f = [] \<longrightarrow>
      updateOff f = Returns (f\<lparr>buf := [], off := off f + int (length (buf f))\<rparr>))
   \<and> (ReadFromStart (cfg f) \<longrightarrow> updateOff f = Returns f)
   \<and> (client_Read f c n = Returns (f', d, e) \<and> d \<noteq> [] \<longrightarrow>
      updateOff (f\<lparr>client_off := (client_off f)[c := client_off f ! c + int (length d)]\<rparr>)
        = Returns f')
   \<and> (c < length (client_off f) \<and> client_off f ! c = off f
        \<and> updateOff (f\<lparr>clients := removeAll c (clients f)\<rparr>) = Returns f2 \<longrightarrow>
      client_Close f c = Returns (f2, None))
   \<and> (c < length (client_off f) \<and> client_off f ! c \<noteq> off f \<longrightarrow>
      client_Close f c = Returns (f\<lparr>clients := removeAll c (clients f)\<rparr>, None))"
proof -
  have t: "offJump_loop f (clients f) (int (length (buf f))) = trim_amount f"
    by (simp add: offJump_loop_Min trim_amount_def)
  have le: "trim_amount f \<le> int (length (buf f))"
    using offJump_loop_le [of f "clients f" "int (length (buf f))"] t by simp
  have a: "updateOff f = Returns (f\<lparr>buf := drop (nat (trim_amount f)) (buf f),
                               off := off f + trim_amount f\<rparr>)"
    if "\<not> ReadFromStart (cfg f)" and "0 \<le> trim_amount f"
    using that le by (simp add: updateOff_def slice_from_def t Let_def)
  have b: "updateOff f = Returns (f\<lparr>buf := [], off := off f + int (length (buf f))\<rparr>)"
    if "\<not> ReadFromStart (cfg f)" and "clients f = []"
    using that by (simp add: updateOff_def slice_from_def Let_def)
  have c: "updateOff f = Returns f" if "ReadFromStart (cfg f)"
    using that by (simp add: updateOff_def)
  have d: "updateOff (f\<lparr>client_off := (client_off f)[c := client_off f ! c + int (length d)]\<rparr>)
             = Returns f'"
    if "client_Read f c n = Returns (f', d, e)" and "d \<noteq> []"
    using that
    by (auto simp: client_Read_def Let_def split: if_splits outcome.splits)
  have e: "client_Close f c = Returns (f2, None)"
    if "c < length (client_off f)" and "client_off f ! c = off f"
      and "updateOff (f\<lparr>clients := removeAll c (clients f)\<rparr>) = Returns f2"
    using that by (simp add: client_Close_def Let_def)
  have g: "client_Close f c = Returns (f\<lparr>clients := removeAll c (clients f)\<rparr>, None)"
    if "c < length (client_off f)" and "client_off f ! c \<noteq> off f"
    using that by (auto simp: client_Close_def Let_def)
  show ?thesis using a b c d e g by blast
qed

theorem trimming_rule_witness:
  "updateOff \<lparr>buf = [1, 2, 3, 4, 5], cfg = \<lparr>Buf = [], Limit = 0, ReadFromStart = False\<rparr>,
        off = 0, clients = [0, 1], closed = False, client_off = [2, 5]\<rparr>
     = Returns \<lparr>buf = [3, 4, 5], cfg = \<lparr>Buf = [], Limit = 0, ReadFromStart = False\<rparr>,
        off = 2, clients = [0, 1], closed = False, client_off = [2, 5]\<rparr>
   \<and> updateOff \<lparr>buf = [1, 2], cfg = \<lparr>Buf = [1, 2], Limit = 0, ReadFromStart = False\<rparr>,
        off = 2, clients = [], closed = False, client_off = [4]\<rparr>
     = Returns \<lparr>buf = [], cfg = \<lparr>Buf = [1, 2], Limit = 0, ReadFromStart = False\<rparr>,
        off = 4, clients = [], closed = False, client_off = [4]\<rparr>
   \<and> updateOff \<lparr>buf = [1, 2, 3, 4, 5], cfg = \<lparr>Buf = [], Limit = 0, ReadFromStart = True\<rparr>,
        off = 0, clients = [0], closed = False, client_off = [5]\<rparr>
     = Returns \<lparr>buf = [1, 2, 3, 4, 5], cfg = \<lparr>Buf = [], Limit = 0, ReadFromStart = True\<rparr>,
        off = 0, clients = [0], closed = False, client_off = [5]\<rparr>
   \<and> updateOff \<lparr>buf = [1, 2, 3, 4, 5], cfg = \<lparr>Buf = [], Limit = 0, ReadFromStart = False\<rparr>,
        off = 0, clients = [0], closed = False, client_off = [3]\<rparr>
     = Returns \<lparr>buf = [4, 5], cfg = \<lparr>Buf = [], Limit = 0, ReadFromStart = False\<rparr>,
        off = 3, clients = [0], closed = False, client_off = [3]\<rparr>
   \<and> client_Close \<lparr>buf = [1, 2, 3, 4, 5], cfg = \<lparr>Buf = [], Limit = 0, ReadFromStart = False\<rparr>,
        off = 0, clients = [0], closed = False, client_off = [0]\<rparr> 0
     = Returns (\<lparr>buf = [], cfg = \<lparr>Buf = [], Limit = 0, ReadFromStart = False\<rparr>,
        off = 5, clients = [], closed = False, client_off = [0]\<rparr>, None)
   \<and> client_Close \<lparr>buf = [1, 2], cfg = \<lparr>Buf = [1, 2], Limit = 0, ReadFromStart = False\<rparr>,
        off = 2, clients = [0], closed = False, client_off = [4]\<rparr> 0
     = Returns (\<lparr>buf = [1, 2], cfg = \<lparr>Buf = [1, 2], Limit = 0, ReadFromStart = False\<rparr>,
        off = 2, clients = [], closed = False, client_off = [4]\<rparr>, None)"
proof -
  let ?c0 = "\<lparr>Buf = [], Limit = 0, ReadFromStart = False\<rparr>"
  let ?c1 = "\<lparr>Buf = [1, 2], Limit = 0, ReadFromStart = False\<rparr>"
  let ?c2 = "\<lparr>Buf = [], Limit = 0, ReadFromStart = True\<rparr>"
  let ?fa = "\<lparr>buf = [1, 2, 3, 4, 5], cfg = ?c0, off = 0, clients = [0, 1], closed = False,
              client_off = [2, 5]\<rparr>"
  let ?fb = "\<lparr>buf = [1, 2], cfg = ?c1, off = 2, clients = [], closed = False,
              client_off = [4]\<rparr>"
  let ?fc = "\<lparr>buf = [1, 2, 3, 4, 5], cfg = ?c2, off = 0, clients = [0], closed = False,
              client_off = [5]\<rparr>"
  let ?fd = "\<lparr>buf = [1, 2, 3, 4, 5], cfg = ?c0, off = 0, clients = [0], closed = False,
              client_off = [0]\<rparr>"
  let ?fd' = "\<lparr>buf = [4, 5], cfg = ?c0, off = 3, clients = [0], closed = False,
              client_off = [3]\<rparr>"
  let ?fe' = "\<lparr>buf = [], cfg = ?c0, off = 5, clients = [], closed = False,
              client_off = [0]\<rparr>"
  let ?fg = "\<lparr>buf = [1, 2], cfg = ?c1, off = 2, clients = [0], closed = False,
              client_off = [4]\<rparr>"
  have ta: "trim_amount ?fa = 2" by (simp add: trim_amount_def)
  have a: "updateOff ?fa = Returns (?fa\<lparr>buf := drop (nat (trim_amount ?fa)) (buf ?fa),
                                        off := off ?fa + trim_amount ?fa\<rparr>)"
    using trimming_rule [where f = ?fa] ta by simp
  have b: "updateOff ?fb = Returns (?fb\<lparr>buf := [], off := off ?fb + int (length (buf ?fb))\<rparr>)"
    using trimming_rule [where f = ?fb] by simp
  have c: "updateOff ?fc = Returns ?fc"
    using trimming_rule [where f = ?fc] by simp
  have rd: "client_Read ?fd 0 3 = Returns (?fd', [1, 2, 3], None)"
    by (simp add: fw_defs)
  have d: "updateOff (?fd\<lparr>client_off := (client_off ?fd)[0 := client_off ?fd ! 0
                                                         + int (length [1, 2, 3 :: byte])]\<rparr>)
             = Returns ?fd'"
    using trimming_rule [where f = ?fd and c = 0 and n = 3 and f' = ?fd'
                           and d = "[1, 2, 3]" and e = None] rd by simp
  have ue: "updateOff (?fd\<lparr>clients := removeAll 0 (clients ?fd)\<rparr>) = Returns ?fe'"
    by (simp add: fw_defs)
  have e: "client_Close ?fd 0 = Returns (?fe', None)"
    using trimming_rule [where f = ?fd and c = 0 and ?f2.0 = ?fe'] ue by simp
  have g: "client_Close ?fg 0 = Returns (?fg\<lparr>clients := removeAll 0 (clients ?fg)\<rparr>, None)"
    using trimming_rule [where f = ?fg and c = 0] by simp
  show ?thesis using a b c d e g ta by simp
qed

section \<open>Draining a closed writer\<close>

lemma concat_drain: "concat (map fst (drain rest ns)) = take (sum_list ns) rest"
proof (induction ns arbitrary: rest)
  case Nil
  show ?case by simp
next
  case (Cons n ns)
  show ?case
    by (simp add: Cons.IH take_add)
qed

lemma updateOff_live:
  assumes "live f"
  shows "\<exists>j. 0 \<le> j \<and> j \<le> int (length (buf f))
           \<and> (\<forall>r\<in>set (clients f). off f + j \<le> client_off f ! r)
           \<and> updateOff f = Returns (f\<lparr>buf := drop (nat j) (buf f), off := off f + j\<rparr>)"
proof (cases "ReadFromStart (cfg f)")
  case True
  have "updateOff f = Returns (f\<lparr>buf := drop (nat 0) (buf f), off := off f + 0\<rparr>)"
    using True by (simp add: updateOff_def)
  moreover have "\<forall>r\<in>set (clients f). off f + 0 \<le> client_off f ! r"
    using assms by (simp add: live_def list_all_iff)
  ultimately show ?thesis by (intro exI [of _ 0]) simp
next
  case False
  let ?j = "offJump_loop f (clients f) (int (length (buf f)))"
  have lo: "0 \<le> ?j"
    using assms by (intro offJump_loop_lower) (auto simp: live_def list_all_iff)
  have hi: "?j \<le> int (length (buf f))" by (rule offJump_loop_le)
  have cl: "\<forall>r\<in>set (clients f). off f + ?j \<le> client_off f ! r"
    using offJump_loop_le_client [of _ "clients f" f "int (length (buf f))"] by fastforce
  have "updateOff f = Returns (f\<lparr>buf := drop (nat ?j) (buf f), off := off f + ?j\<rparr>)"
    using False lo hi by (simp add: updateOff_def slice_from_def Let_def)
  with lo hi cl show ?thesis by blast
qed

lemma pending_trim:
  assumes "0 \<le> j" and "off g + j \<le> client_off g ! q"
  shows "pending (g\<lparr>buf := drop (nat j) (buf g), off := off g + j\<rparr>) q = pending g q"
proof -
  have "nat (client_off g ! q - (off g + j)) + nat j = nat (client_off g ! q - off g)"
    using assms by simp
  then show ?thesis by (simp add: pending_def)
qed


lemma live_trim:
  assumes "live g" and "\<forall>r\<in>set (clients g). off g + j \<le> client_off g ! r"
  shows "live (g\<lparr>buf := b, off := off g + j\<rparr>)"
  using assms by (simp add: live_def list_all_iff)

lemma live_advance:
  assumes "live f" and "0 \<le> m"
  shows "live (f\<lparr>client_off := (client_off f)[r := client_off f ! r + m]\<rparr>)"
proof -
  have "off f \<le> (client_off f)[r := client_off f ! r + m] ! q"
    if "q \<in> set (clients f)" for q
  proof (cases "q = r")
    case True
    then show ?thesis using assms that by (auto simp: live_def list_all_iff)
  next
    case False
    then show ?thesis using assms that by (auto simp: live_def list_all_iff)
  qed
  then show ?thesis using assms(1) by (auto simp: live_def list_all_iff)
qed

lemma live_removeAll:
  assumes "live f"
  shows "live (f\<lparr>clients := removeAll r (clients f)\<rparr>)"
  using assms by (simp add: live_def list_all_iff)

lemma Read_closed_self:
  assumes cl: "closed f" and lv: "live f" and reg: "c \<in> set (clients f)"
    and up: "client_off f ! c \<le> tail f"
  shows "\<exists>f'. client_Read f c n
                 = Returns (f', if pending f c = [] then [] else take n (pending f c),
                            if pending f c = [] then Some EOF else None)
           \<and> closed f' \<and> live f' \<and> clients f' = clients f
           \<and> length (client_off f') = length (client_off f)
           \<and> client_off f' ! c \<le> tail f'
           \<and> pending f' c = drop n (pending f c)"
proof -
  let ?o = "client_off f ! c"
  have valid: "c < length (client_off f)" and lo: "off f \<le> ?o"
    using lv reg by (auto simp: live_def list_all_iff)
  have hi: "?o - off f \<le> int (length (buf f))" using up by (simp add: tail_def)
  let ?lbuf = "drop (nat (?o - off f)) (buf f)"
  have pend: "pending f c = ?lbuf" by (simp add: pending_def)
  show ?thesis
  proof (cases "?lbuf = [] \<or> n = 0")
    case True
    then have "client_Read f c n
                 = Returns (f, if pending f c = [] then [] else take n (pending f c),
                            if pending f c = [] then Some EOF else None)"
      using valid lo hi cl unfolding pend
      by (auto simp: client_Read_def Let_def)
    moreover have "pending f c = drop n (pending f c)" using True pend by auto
    ultimately show ?thesis using cl lv up by auto
  next
    case False
    let ?d = "take n ?lbuf"
    let ?m = "int (length ?d)"
    let ?g = "f\<lparr>client_off := (client_off f)[c := ?o + ?m]\<rparr>"
    have mpos: "0 < length ?d" using False by simp
    have lg: "live ?g" using live_advance [OF lv, of ?m c] by simp
    from updateOff_live [OF lg] obtain j where
      j0: "0 \<le> j" and jl: "j \<le> int (length (buf f))"
      and jc: "\<forall>r\<in>set (clients f). off f + j \<le> client_off ?g ! r"
      and u: "updateOff ?g = Returns (?g\<lparr>buf := drop (nat j) (buf ?g), off := off ?g + j\<rparr>)"
      by auto
    let ?f' = "?g\<lparr>buf := drop (nat j) (buf ?g), off := off ?g + j\<rparr>"
    have r: "client_Read f c n = Returns (?f', ?d, None)"
      using valid lo hi False mpos u by (simp add: client_Read_def Let_def)
    have ne: "pending f c \<noteq> []" using False pend by simp
    have lf': "live ?f'"
      using live_trim [OF lg, of j] jc by simp
    have gc: "client_off ?g ! c = ?o + ?m" using valid by simp
    have "pending ?f' c = pending ?g c"
      using pending_trim [OF j0, of ?g c] jc reg by simp
    also have "\<dots> = drop (nat (?o + ?m - off f)) (buf f)"
      using gc by (simp add: pending_def)
    also have "nat (?o + ?m - off f) = length ?d + nat (?o - off f)"
      using lo by simp
    also have "drop (length ?d + nat (?o - off f)) (buf f) = drop (length ?d) ?lbuf"
      by simp
    also have "\<dots> = drop n ?lbuf"
      by (cases "n \<le> length ?lbuf") (simp_all add: min_def)
    finally have pd: "pending ?f' c = drop n (pending f c)" using pend by simp
    have "length ?d \<le> length (buf f) - nat (?o - off f)" by simp
    then have "?o + ?m \<le> off f + int (length (buf f))" using lo hi by simp
    moreover have "tail ?f' = off f + int (length (buf f))"
      using j0 jl by (simp add: tail_def)
    ultimately have ut: "client_off ?f' ! c \<le> tail ?f'" using gc by simp
    show ?thesis
      using r ne cl lf' ut pd pend by (intro exI [of _ ?f']) simp
  qed
qed

lemma Read_closed_other:
  assumes cl: "closed f" and lv: "live f" and reg: "c \<in> set (clients f)"
    and up: "client_off f ! c \<le> tail f" and valid: "r < length (client_off f)"
    and other: "r \<noteq> c"
  shows "\<exists>f' d e. client_Read f r n = Returns (f', d, e)
           \<and> closed f' \<and> live f' \<and> c \<in> set (clients f')
           \<and> length (client_off f') = length (client_off f)
           \<and> client_off f' ! c \<le> tail f'
           \<and> pending f' c = pending f c"
proof -
  let ?o = "client_off f ! r"
  let ?lbuf = "drop (nat (?o - off f)) (buf f)"
  consider (fell) "?o - off f > int (length (buf f)) \<or> ?o - off f < 0"
    | (idle) "\<not> (?o - off f > int (length (buf f)) \<or> ?o - off f < 0)" "?lbuf = [] \<or> n = 0"
    | (data) "\<not> (?o - off f > int (length (buf f)) \<or> ?o - off f < 0)" "\<not> (?lbuf = [] \<or> n = 0)"
    by blast
  then show ?thesis
  proof cases
    case fell
    let ?f' = "f\<lparr>clients := removeAll r (clients f)\<rparr>"
    have "client_Read f r n = Returns (?f', [], Some ErrFellBehind)"
      using fell valid by (auto simp: client_Read_def Let_def)
    moreover have "live ?f'" by (rule live_removeAll [OF lv])
    moreover have "pending ?f' c = pending f c" by (simp add: pending_def)
    moreover have "tail ?f' = tail f" by (simp add: tail_def)
    ultimately show ?thesis using cl reg up other by auto
  next
    case idle
    then have "\<exists>d e. client_Read f r n = Returns (f, d, e)"
      using valid cl by (auto simp: client_Read_def Let_def)
    then show ?thesis using cl lv reg up by auto
  next
    case data
    let ?d = "take n ?lbuf"
    let ?m = "int (length ?d)"
    let ?g = "f\<lparr>client_off := (client_off f)[r := ?o + ?m]\<rparr>"
    have mpos: "0 < length ?d" using data by simp
    have lg: "live ?g" using live_advance [OF lv, of ?m r] by simp
    from updateOff_live [OF lg] obtain j where
      j0: "0 \<le> j" and jl: "j \<le> int (length (buf f))"
      and jc: "\<forall>q\<in>set (clients f). off f + j \<le> client_off ?g ! q"
      and u: "updateOff ?g = Returns (?g\<lparr>buf := drop (nat j) (buf ?g), off := off ?g + j\<rparr>)"
      by auto
    let ?f' = "?g\<lparr>buf := drop (nat j) (buf ?g), off := off ?g + j\<rparr>"
    have rd: "client_Read f r n = Returns (?f', ?d, None)"
      using valid data mpos u by (simp add: client_Read_def Let_def)
    have lf': "live ?f'"
      using live_trim [OF lg, of j] jc by simp
    have gc: "client_off ?g ! c = client_off f ! c" using other by simp
    have "pending ?f' c = pending ?g c"
      using pending_trim [OF j0, of ?g c] jc reg by simp
    also have "\<dots> = pending f c"
      using gc by (simp add: pending_def)
    finally have pd: "pending ?f' c = pending f c" .
    have "tail ?f' = tail f"
      using j0 jl by (simp add: tail_def)
    then have ut: "client_off ?f' ! c \<le> tail ?f'" using gc up by simp
    show ?thesis
      using rd cl lf' ut pd reg by (intro exI [of _ ?f'] exI [of _ ?d] exI [of _ None]) simp
  qed
qed

lemma Close_closed_other:
  assumes cl: "closed f" and lv: "live f" and reg: "c \<in> set (clients f)"
    and up: "client_off f ! c \<le> tail f" and valid: "r < length (client_off f)"
    and other: "r \<noteq> c"
  shows "\<exists>f' e. client_Close f r = Returns (f', e)
           \<and> closed f' \<and> live f' \<and> c \<in> set (clients f')
           \<and> length (client_off f') = length (client_off f)
           \<and> client_off f' ! c \<le> tail f'
           \<and> pending f' c = pending f c"
proof -
  let ?g = "f\<lparr>clients := removeAll r (clients f)\<rparr>"
  have lg: "live ?g" by (rule live_removeAll [OF lv])
  have regg: "c \<in> set (clients ?g)" using reg other by simp
  show ?thesis
  proof (cases "off f = client_off f ! r")
    case False
    then have "client_Close f r = Returns (?g, None)"
      using valid by (simp add: client_Close_def Let_def)
    moreover have "pending ?g c = pending f c" by (simp add: pending_def)
    moreover have "tail ?g = tail f" by (simp add: tail_def)
    ultimately show ?thesis using cl lg regg up by auto
  next
    case True
    from updateOff_live [OF lg] obtain j where
      j0: "0 \<le> j" and jl: "j \<le> int (length (buf f))"
      and jc: "\<forall>q\<in>set (clients ?g). off f + j \<le> client_off ?g ! q"
      and u: "updateOff ?g = Returns (?g\<lparr>buf := drop (nat j) (buf ?g), off := off ?g + j\<rparr>)"
      by auto
    let ?f' = "?g\<lparr>buf := drop (nat j) (buf ?g), off := off ?g + j\<rparr>"
    have c: "client_Close f r = Returns (?f', None)"
      using valid True u by (simp add: client_Close_def Let_def)
    have lf': "live ?f'"
      using live_trim [OF lg, of j] jc by simp
    have "pending ?f' c = pending ?g c"
      using pending_trim [OF j0, of ?g c] jc regg by simp
    then have pd: "pending ?f' c = pending f c" by (simp add: pending_def)
    have "tail ?f' = tail f"
      using j0 jl by (simp add: tail_def)
    then have ut: "client_off ?f' ! c \<le> tail ?f'" using up by simp
    show ?thesis
      using c cl lf' ut pd regg by (intro exI [of _ ?f'] exI [of _ None]) simp
  qed
qed

lemma Write_closed:
  assumes "closed f"
  shows "\<exists>n e. fwriter_Write f p = Returns (f, n, e)"
  using assms by (simp add: fwriter_Write_def Let_def)


lemma Read_closed_EOF:
  assumes cl: "closed f" and lv: "live f" and reg: "c \<in> set (clients f)"
    and up: "client_off f ! c \<le> tail f" and drained: "pending f c = []"
  shows "client_Read f c n = Returns (f, [], Some EOF)"
proof -
  have valid: "c < length (client_off f)" and lo: "off f \<le> client_off f ! c"
    using lv reg by (auto simp: live_def list_all_iff)
  have hi: "client_off f ! c - off f \<le> int (length (buf f))" using up by (simp add: tail_def)
  show ?thesis
    using valid lo hi cl drained by (auto simp: client_Read_def Let_def pending_def)
qed

lemma drain_append:
  "drain rest (ns @ ms) = drain rest ns @ drain (drop (sum_list ns) rest) ms"
  by (induction ns arbitrary: rest) (simp_all add: add.commute)

lemma capacities_Cons: "capacities c (x # xs) = capacities c [x] @ capacities c xs"
  by (cases x) simp_all

lemma step_after_close:
  assumes cl: "closed f" and lv: "live f" and reg: "c \<in> set (clients f)"
    and up: "client_off f ! c \<le> tail f"
    and ok: "after_close_ok (length (client_off f)) c x"
  shows "\<exists>f'. step f x = Some f' \<and> closed f' \<and> live f' \<and> c \<in> set (clients f')
           \<and> length (client_off f') = length (client_off f)
           \<and> client_off f' ! c \<le> tail f'
           \<and> answer c f x = drain (pending f c) (capacities c [x])
           \<and> pending f' c = drop (sum_list (capacities c [x])) (pending f c)"
proof (cases x)
  case (OpWrite p)
  from Write_closed [OF cl, of p] obtain n e where "fwriter_Write f p = Returns (f, n, e)"
    by blast
  then show ?thesis using OpWrite cl lv reg up by simp
next
  case OpClose
  have same: "f\<lparr>closed := True\<rparr> = f" using cl by simp
  show ?thesis using OpClose cl lv reg up by (simp add: fwriter_Close_def same)
next
  case OpNewReader
  then show ?thesis using ok by simp
next
  case (OpRead r n)
  show ?thesis
  proof (cases "r = c")
    case True
    from Read_closed_self [OF cl lv reg up, of n] obtain f' where
      "client_Read f c n
         = Returns (f', if pending f c = [] then [] else take n (pending f c),
                    if pending f c = [] then Some EOF else None)"
      and "closed f'" and "live f'" and "clients f' = clients f"
      and "length (client_off f') = length (client_off f)"
      and "client_off f' ! c \<le> tail f'" and "pending f' c = drop n (pending f c)"
      by blast
    then show ?thesis using OpRead True reg by (intro exI [of _ f']) simp
  next
    case False
    have valid: "r < length (client_off f)" using ok OpRead by simp
    from Read_closed_other [OF cl lv reg up valid False, of n] obtain f' d e where
      "client_Read f r n = Returns (f', d, e)"
      and "closed f'" and "live f'" and "c \<in> set (clients f')"
      and "length (client_off f') = length (client_off f)"
      and "client_off f' ! c \<le> tail f'" and "pending f' c = pending f c"
      by blast
    then show ?thesis using OpRead False by (intro exI [of _ f']) simp
  qed
next
  case (OpCloseReader r)
  have valid: "r < length (client_off f)" and other: "r \<noteq> c" using ok OpCloseReader by simp_all
  from Close_closed_other [OF cl lv reg up valid other] obtain f' e where
    "client_Close f r = Returns (f', e)"
    and "closed f'" and "live f'" and "c \<in> set (clients f')"
    and "length (client_off f') = length (client_off f)"
    and "client_off f' ! c \<le> tail f'" and "pending f' c = pending f c"
    by blast
  then show ?thesis using OpCloseReader by (intro exI [of _ f']) simp
qed

lemma run_after_close:
  assumes "closed f" and "live f" and "c \<in> set (clients f)"
    and "client_off f ! c \<le> tail f"
    and "list_all (after_close_ok (length (client_off f)) c) ops"
  shows "\<exists>f'. run f ops = Some f' \<and> closed f' \<and> live f' \<and> c \<in> set (clients f')
           \<and> client_off f' ! c \<le> tail f'
           \<and> reads_of c f ops = Some (drain (pending f c) (capacities c ops))
           \<and> pending f' c = drop (sum_list (capacities c ops)) (pending f c)"
  using assms
proof (induction ops arbitrary: f)
  case Nil
  then show ?case by simp
next
  case (Cons x xs)
  have okx: "after_close_ok (length (client_off f)) c x"
    and okxs: "list_all (after_close_ok (length (client_off f)) c) xs"
    using Cons.prems(5) by simp_all
  from step_after_close [OF Cons.prems(1-4) okx] obtain f1 where
    s: "step f x = Some f1" and c1: "closed f1" and l1: "live f1"
    and r1: "c \<in> set (clients f1)"
    and n1: "length (client_off f1) = length (client_off f)"
    and u1: "client_off f1 ! c \<le> tail f1"
    and a1: "answer c f x = drain (pending f c) (capacities c [x])"
    and p1: "pending f1 c = drop (sum_list (capacities c [x])) (pending f c)"
    by blast
  have okxs1: "list_all (after_close_ok (length (client_off f1)) c) xs"
    using okxs n1 by simp
  from Cons.IH [OF c1 l1 r1 u1 okxs1] obtain f' where
    r: "run f1 xs = Some f'" and c': "closed f'" and l': "live f'"
    and r': "c \<in> set (clients f')" and u': "client_off f' ! c \<le> tail f'"
    and lg: "reads_of c f1 xs = Some (drain (pending f1 c) (capacities c xs))"
    and p': "pending f' c = drop (sum_list (capacities c xs)) (pending f1 c)"
    by blast
  have "reads_of c f (x # xs)
          = Some (drain (pending f c) (capacities c [x])
                  @ drain (drop (sum_list (capacities c [x])) (pending f c)) (capacities c xs))"
    using s lg a1 p1 by simp
  then have lg': "reads_of c f (x # xs) = Some (drain (pending f c) (capacities c (x # xs)))"
    by (simp only: drain_append [symmetric] capacities_Cons [symmetric])
  have "pending f' c
          = drop (sum_list (capacities c [x]) + sum_list (capacities c xs)) (pending f c)"
    using p' p1 by (simp add: add.commute)
  then have pp: "pending f' c = drop (sum_list (capacities c (x # xs))) (pending f c)"
    by (simp add: capacities_Cons [of c x xs])
  show ?case
    using s r c' l' r' u' lg' pp by (intro exI [of _ f']) simp
qed

text \<open>
  On a closed writer in which no registered reader is behind the base offset, any sequence
  of calls runs without a panic, and the reads on a registered reader \<open>c\<close> whose offset
  is not beyond the end of the buffer return, in order, the buffered bytes from its offset
  on; once nothing is left a read returns end of stream and leaves the state as it is.
\<close>

lemma drain_after_close:
  assumes "closed f" and "live f" and "c \<in> set (clients f)"
    and "client_off f ! c \<le> tail f"
    and "list_all (after_close_ok (length (client_off f)) c) ops"
  shows "\<exists>f'. run f ops = Some f'
           \<and> reads_of c f ops = Some (drain (pending f c) (capacities c ops))
           \<and> concat (map fst (drain (pending f c) (capacities c ops)))
               = take (sum_list (capacities c ops)) (pending f c)
           \<and> pending f' c = drop (sum_list (capacities c ops)) (pending f c)
           \<and> (if pending f' c = [] then client_Read f' c n = Returns (f', [], Some EOF)
               else client_Read f' c n \<noteq> Returns (f', [], Some EOF))"
proof -
  from run_after_close [OF assms] obtain f' where
    r: "run f ops = Some f'" and c': "closed f'" and l': "live f'"
    and r': "c \<in> set (clients f')" and u': "client_off f' ! c \<le> tail f'"
    and lg: "reads_of c f ops = Some (drain (pending f c) (capacities c ops))"
    and p': "pending f' c = drop (sum_list (capacities c ops)) (pending f c)"
    by blast
  have e: "client_Read f' c n = Returns (f', [], Some EOF)" if "pending f' c = []"
    using Read_closed_EOF [OF c' l' r' u' that] .
  have ne: "client_Read f' c n \<noteq> Returns (f', [], Some EOF)" if "pending f' c \<noteq> []"
  proof -
    from Read_closed_self [OF c' l' r' u', of n] that
    obtain f'' where "client_Read f' c n = Returns (f'', take n (pending f' c), None)"
      by auto
    then show ?thesis by simp
  qed
  show ?thesis
    using r lg p' e ne by (intro exI [of _ f']) (simp add: concat_drain)
qed

text \<open>
  Before the close: along a run of short writes, what a reader that is still registered
  and not behind at the end has received, followed by what is pending for it, is what was
  pending at the start followed by the bytes accepted during the run.
\<close>

lemma Read_Returns_clients:
  assumes "client_Read f r n = Returns (f', d, e)"
  shows "set (clients f') \<subseteq> set (clients f) \<and> buf f' = drop (nat (off f' - off f)) (buf f)"
  using assms
  by (auto simp: client_Read_def Let_def split: if_splits outcome.splits
           dest!: updateOff_Returns)

lemma Close_Returns_clients:
  assumes "client_Close f r = Returns (f', e)"
  shows "set (clients f') = set (clients f) - {r} \<and> buf f' = drop (nat (off f' - off f)) (buf f)"
  using assms
  by (auto simp: client_Close_def Let_def split: if_splits outcome.splits
           dest!: updateOff_Returns)

lemma NewReader_Returns_clients:
  assumes "NewReader f = Returns (f', c)"
  shows "set (clients f') = insert (length (client_off f)) (set (clients f))
         \<and> c = length (client_off f) \<and> clients f' = List.insert c (clients f)"
  using assms by (auto simp: NewReader_def Let_def split: if_splits)

lemma step_cfg:
  assumes "step f x = Some f'"
  shows "cfg f' = cfg f \<and> length (client_off f) \<le> length (client_off f')"
proof (cases x)
  case (OpWrite p)
  then show ?thesis using assms by (auto split: outcome.splits dest!: Write_Returns)
next
  case OpClose
  then show ?thesis using assms by (auto simp: fwriter_Close_def)
next
  case OpNewReader
  then show ?thesis using assms by (auto split: outcome.splits dest!: NewReader_Returns)
next
  case (OpRead r n)
  then show ?thesis using assms by (auto split: outcome.splits dest!: Read_Returns)
next
  case (OpCloseReader r)
  then show ?thesis using assms by (auto split: outcome.splits dest!: Close_Returns)
qed

lemma step_registered_before:
  assumes "step f x = Some f'" and "c < length (client_off f)" and "c \<in> set (clients f')"
  shows "c \<in> set (clients f)"
proof (cases x)
  case (OpWrite p)
  then show ?thesis using assms by (auto split: outcome.splits dest!: Write_Returns)
next
  case OpClose
  then show ?thesis using assms by (auto simp: fwriter_Close_def)
next
  case OpNewReader
  then show ?thesis using assms by (auto split: outcome.splits dest!: NewReader_Returns_clients)
next
  case (OpRead r n)
  then show ?thesis using assms by (auto split: outcome.splits dest!: Read_Returns_clients)
next
  case (OpCloseReader r)
  then show ?thesis using assms by (auto split: outcome.splits dest!: Close_Returns_clients)
qed

lemma step_upper:
  assumes "step f x = Some f'" and "c < length (client_off f)" and "client_off f ! c \<le> tail f"
  shows "client_off f' ! c \<le> tail f'"
proof (cases x)
  case (OpWrite p)
  then show ?thesis using assms by (auto split: outcome.splits dest!: Write_Returns)
next
  case OpClose
  then show ?thesis using assms by (auto simp: fwriter_Close_def tail_def)
next
  case OpNewReader
  then show ?thesis
    using assms by (auto simp: tail_def nth_append split: outcome.splits dest!: NewReader_Returns)
next
  case (OpRead r n)
  show ?thesis
  proof (cases "r = c")
    case False
    show ?thesis
    proof (cases "client_Read f r n")
      case (Returns t)
      obtain f1 d e where t: "t = (f1, d, e)" by (cases t)
      have R: "client_Read f r n = Returns (f', d, e)" using assms(1) OpRead Returns t by simp
      have "client_off f' ! c = client_off f ! c"
        using Read_Returns_other [OF R, of c] False by simp
      moreover have "tail f' = tail f" using Read_Returns [OF R] by simp
      ultimately show ?thesis using assms(3) by simp
    qed (use assms OpRead in auto)
  next
    case True
    then show ?thesis
      using assms OpRead
      by (auto simp: client_Read_def Let_def tail_def split: outcome.splits if_splits
               dest!: updateOff_Returns)
  qed
next
  case (OpCloseReader r)
  then show ?thesis using assms by (auto split: outcome.splits dest!: Close_Returns)
qed


lemma pending_shift:
  assumes "buf f' = drop (nat (off f' - off f)) (buf f)" and "off f \<le> off f'"
    and "off f' \<le> client_off f' ! c" and "client_off f' ! c = client_off f ! c + m"
    and "0 \<le> m" and "off f \<le> client_off f ! c"
  shows "pending f' c = drop (nat m) (pending f c)"
proof -
  have "nat (client_off f ! c + m - off f') + nat (off f' - off f)
          = nat m + nat (client_off f ! c - off f)"
    using assms(2-6) by simp
  then show ?thesis using assms(1,4) by (simp add: pending_def)
qed

lemma Read_Returns_self:
  assumes "client_Read f c n = Returns (f', d, e)" and "off f \<le> client_off f ! c"
    and "client_off f ! c \<le> tail f"
  shows "d = take n (pending f c) \<and> client_off f' ! c = client_off f ! c + int (length d)"
  using assms
  by (auto simp: client_Read_def Let_def tail_def pending_def
           split: if_splits outcome.splits dest!: updateOff_Returns)

lemma Write_owed:
  assumes w: "fwriter_Write f p = Returns (f', n, e)"
    and lo: "off f \<le> client_off f ! c" and up: "client_off f ! c \<le> tail f"
    and reg: "c \<in> set (clients f)" and lo': "off f' \<le> client_off f' ! c"
    and sw: "Limit (cfg f) = 0 \<or> int (length p) < Limit (cfg f)"
  shows "pending f' c = pending f c @ take (nat n) p"
proof -
  let ?k = "nat (client_off f ! c - off f)"
  have k: "?k \<le> length (buf f)" using lo up by (simp add: tail_def)
  have ne: "clients f \<noteq> []" using reg by auto
  let ?inv = "int (length (buf f)) + int (length p) - Limit (cfg f)"
  consider (none) "p = [] \<or> closed f"
    | (app) "p \<noteq> []" "\<not> closed f" "Limit (cfg f) = 0 \<or> ?inv \<le> 0"
    | (trim) "p \<noteq> []" "\<not> closed f" "Limit (cfg f) \<noteq> 0" "0 < ?inv"
    by linarith
  then show ?thesis
  proof cases
    case none
    then have "f' = f \<and> n = 0"
      using w by (auto simp: fwriter_Write_def Let_def split: if_splits)
    then show ?thesis by simp
  next
    case app
    then have "f' = f\<lparr>buf := buf f @ p\<rparr> \<and> n = int (length p)"
      using w ne sw by (auto simp: fwriter_Write_def Let_def split: if_splits)
    then show ?thesis using k by (simp add: pending_def)
  next
    case trim
    have short: "int (length p) < Limit (cfg f)" using sw trim(3) by simp
    have le: "nat ?inv \<le> length (buf f)" using short trim(4) by simp
    have sl: "slice_from (buf f) ?inv = Some (drop (nat ?inv) (buf f))"
      using trim(4) le by (simp add: slice_from_def)
    have f': "f' = f\<lparr>buf := drop (nat ?inv) (buf f) @ p, off := off f + ?inv\<rparr>"
      and n: "n = int (length p)"
      using w ne trim short sl by (auto simp: fwriter_Write_def Let_def)
    have oc: "off f + ?inv \<le> client_off f ! c" using lo' f' by simp
    let ?k' = "nat (client_off f ! c - (off f + ?inv))"
    have k': "?k' \<le> length (drop (nat ?inv) (buf f))" using oc k trim(4) lo by simp
    have sum: "?k' + nat ?inv = ?k" using oc trim(4) by simp
    have "pending f' c = drop ?k' (drop (nat ?inv) (buf f) @ p)"
      using f' by (simp add: pending_def)
    also have "\<dots> = drop ?k' (drop (nat ?inv) (buf f)) @ p" using k' by simp
    also have "\<dots> = drop ?k (buf f) @ p" using sum by simp
    finally show ?thesis using n by (simp add: pending_def)
  qed
qed

lemma step_owed:
  assumes s: "step f x = Some f'" and valid: "c < length (client_off f)"
    and lo: "off f \<le> client_off f ! c" and up: "client_off f ! c \<le> tail f"
    and reg: "c \<in> set (clients f)" and lo': "off f' \<le> client_off f' ! c"
    and sw: "short_write (Limit (cfg f)) x"
  shows "concat (map fst (answer c f x)) @ pending f' c = pending f c @ taken f x"
proof (cases x)
  case (OpWrite p)
  show ?thesis
  proof (cases "fwriter_Write f p")
    case (Returns t)
    obtain f1 n e where t: "t = (f1, n, e)" by (cases t)
    have W: "fwriter_Write f p = Returns (f', n, e)" using s OpWrite Returns t by simp
    have "Limit (cfg f) = 0 \<or> int (length p) < Limit (cfg f)" using sw OpWrite by simp
    from Write_owed [OF W lo up reg lo' this] show ?thesis using OpWrite W by simp
  qed (use s OpWrite in auto)
next
  case OpClose
  then show ?thesis using s by (auto simp: fwriter_Close_def pending_def)
next
  case OpNewReader
  then show ?thesis
    using s valid
    by (auto simp: pending_def nth_append split: outcome.splits dest!: NewReader_Returns)
next
  case (OpRead r n)
  show ?thesis
  proof (cases "client_Read f r n")
    case (Returns t)
    obtain f1 d e where t: "t = (f1, d, e)" by (cases t)
    have R: "client_Read f r n = Returns (f', d, e)" using s OpRead Returns t by simp
    have mono: "off f \<le> off f'" using Read_Returns [OF R] by simp
    have b: "buf f' = drop (nat (off f' - off f)) (buf f)"
      using Read_Returns_clients [OF R] by simp
    show ?thesis
    proof (cases "r = c")
      case True
      have d: "d = take n (pending f c)"
        and o: "client_off f' ! c = client_off f ! c + int (length d)"
        using Read_Returns_self [of f c n f' d e] R True lo up by simp_all
      have "pending f' c = drop (nat (int (length d))) (pending f c)"
        by (rule pending_shift [OF b mono lo' o _ lo]) simp
      then have "d @ pending f' c = pending f c"
        unfolding d by (cases "n \<le> length (pending f c)") (simp_all add: min_def)
      then show ?thesis using OpRead True R by simp
    next
      case False
      have o: "client_off f' ! c = client_off f ! c + 0"
        using Read_Returns_other [OF R, of c] False by simp
      have "pending f' c = drop (nat 0) (pending f c)"
        by (rule pending_shift [OF b mono lo' o _ lo]) simp
      then show ?thesis using OpRead False by simp
    qed
  next
    case Blocks
    have same: "f' = f" using s OpRead Blocks by simp
    have "answer c f (OpRead r n) = []" using Blocks by auto
    then show ?thesis unfolding OpRead same by simp
  next
    case Panics
    then show ?thesis using s OpRead by simp
  qed
next
  case (OpCloseReader r)
  show ?thesis
  proof (cases "client_Close f r")
    case (Returns t)
    obtain f1 e where t: "t = (f1, e)" by (cases t)
    have C: "client_Close f r = Returns (f', e)" using s OpCloseReader Returns t by simp
    have mono: "off f \<le> off f'" and o: "client_off f' ! c = client_off f ! c + 0"
      using Close_Returns [OF C] by simp_all
    have b: "buf f' = drop (nat (off f' - off f)) (buf f)"
      using Close_Returns_clients [OF C] by simp
    have "pending f' c = drop (nat 0) (pending f c)"
      by (rule pending_shift [OF b mono lo' o _ lo]) simp
    then show ?thesis using OpCloseReader by simp
  qed (use s OpCloseReader in auto)
qed

lemma run_owed:
  assumes "run f ops = Some f'" and "c < length (client_off f)"
    and "client_off f ! c \<le> tail f"
    and "list_all (short_write (Limit (cfg f))) ops"
    and "c \<in> set (clients f')" and "off f' \<le> client_off f' ! c"
  shows "c \<in> set (clients f) \<and> off f \<le> client_off f ! c \<and> client_off f' ! c \<le> tail f'
         \<and> (\<exists>log. reads_of c f ops = Some log
               \<and> concat (map fst log) @ pending f' c = pending f c @ accepted f ops)"
  using assms
proof (induction ops arbitrary: f)
  case Nil
  then show ?case by simp
next
  case (Cons x xs)
  from Cons.prems(1) obtain f1 where s: "step f x = Some f1" and r: "run f1 xs = Some f'"
    by (auto split: option.splits)
  have cf: "cfg f1 = cfg f" and len: "length (client_off f) \<le> length (client_off f1)"
    using step_cfg [OF s] by simp_all
  have v1: "c < length (client_off f1)" using Cons.prems(2) len by simp
  have u1: "client_off f1 ! c \<le> tail f1" by (rule step_upper [OF s Cons.prems(2,3)])
  have sx: "short_write (Limit (cfg f)) x"
    and sxs: "list_all (short_write (Limit (cfg f1))) xs"
    using Cons.prems(4) cf by simp_all
  from Cons.IH [OF r v1 u1 sxs Cons.prems(5,6)] obtain log where
    r1: "c \<in> set (clients f1)" and l1: "off f1 \<le> client_off f1 ! c"
    and u': "client_off f' ! c \<le> tail f'"
    and lg: "reads_of c f1 xs = Some log"
    and eq: "concat (map fst log) @ pending f' c = pending f1 c @ accepted f1 xs"
    by blast
  have reg: "c \<in> set (clients f)" by (rule step_registered_before [OF s Cons.prems(2) r1])
  have lo: "off f \<le> client_off f ! c"
  proof (rule ccontr)
    assume "\<not> off f \<le> client_off f ! c"
    then have "client_off f ! c < off f" by simp
    from step_behind [OF s Cons.prems(2) this] l1 show False by simp
  qed
  have one: "concat (map fst (answer c f x)) @ pending f1 c = pending f c @ taken f x"
    by (rule step_owed [OF s Cons.prems(2) lo Cons.prems(3) reg l1 sx])
  have "concat (map fst (answer c f x @ log)) @ pending f' c
          = concat (map fst (answer c f x)) @ pending f1 c @ accepted f1 xs"
    using eq by simp
  also have "\<dots> = pending f c @ taken f x @ accepted f1 xs"
    using one by (simp only: append_assoc [symmetric])
  finally have "concat (map fst (answer c f x @ log)) @ pending f' c
                  = pending f c @ accepted f (x # xs)"
    using s by simp
  moreover have "reads_of c f (x # xs) = Some (answer c f x @ log)" using s lg by simp
  ultimately show ?case using reg lo u' by blast
qed


lemma run_cfg: "run f ops = Some f' \<Longrightarrow> cfg f' = cfg f"
  by (induction ops arbitrary: f) (auto split: option.splits dest: step_cfg)

text \<open>
  Claim C6, as stated, fails. With a limit of six bytes and readers starting at the tail, a
  reader is registered at offset 0, two writes of five bytes move the base offset to 4, and
  the writer is closed. The reader is registered and has consumed none of the bytes written
  before the close; its read returns neither bytes nor end of stream but
  \<open>ErrFellBehind\<close>.
\<close>

theorem closed_reader_fell_behind_counterexample:
  "run (NewFanoutWriter limit6_tail)
       [OpNewReader, OpWrite [1, 2, 3, 4, 5], OpWrite [6, 7, 8, 9, 10], OpClose]
     = Some \<lparr>buf = [5, 6, 7, 8, 9, 10], cfg = limit6_tail, off = 4, clients = [0],
             closed = True, client_off = [0]\<rparr>
   \<and> client_Read \<lparr>buf = [5, 6, 7, 8, 9, 10], cfg = limit6_tail, off = 4, clients = [0],
          closed = True, client_off = [0]\<rparr> 0 10
     = Returns (\<lparr>buf = [5, 6, 7, 8, 9, 10], cfg = limit6_tail, off = 4, clients = [],
          closed = True, client_off = [0]\<rparr>, [], Some ErrFellBehind)"
  by (simp add: fw_defs)

text \<open>
  Claim C6, amended. A writer is made without an initial buffer; after some calls a reader
  \<open>c\<close> is created; more calls follow, among them the close of the writer; every write up
  to then is shorter than the limit, if there is one. Suppose that in the closed state
  reached \<open>c\<close> is still registered and no registered reader is behind the base offset.
  Then the bytes written before the close that \<open>c\<close> has not yet consumed are exactly the
  bytes pending for it: what its reads have returned so far, followed by the pending bytes,
  is what the buffer held when \<open>c\<close> was created under \<open>ReadFromStart\<close> (nothing
  otherwise) followed by all bytes accepted by writes since. From then on any sequence of
  calls (reads on \<open>c\<close> and on other handles with any destination lengths, closes of other
  handles, writes, closes of the writer) runs without a panic, and the reads on \<open>c\<close>
  return those bytes in order: each read returns the next bytes that fit its destination,
  without error, and each read made when nothing is left returns zero bytes with end of
  stream. Once nothing is pending, a read returns zero bytes with end of stream and leaves
  the state as it is, so that the next read does the same; while something is pending it
  does not. Writes as long as the limit or longer are not covered.
\<close>

theorem closed_writer_drains:
  assumes start: "run (NewFanoutWriter c0) ops0 = Some f0" and nobuf: "Buf c0 = []"
    and created: "NewReader f0 = Returns (f1, c)"
    and before: "run f1 ops1 = Some f2"
    and short: "list_all (short_write (Limit c0)) (ops0 @ ops1)"
    and cl: "closed f2" and lv: "live f2" and reg: "c \<in> set (clients f2)"
    and ok: "list_all (after_close_ok (length (client_off f2)) c) ops2"
  shows "\<exists>log f3. reads_of c f1 ops1 = Some log
           \<and> concat (map fst log) @ pending f2 c
               = (if ReadFromStart c0 then buf f0 else []) @ accepted f1 ops1
           \<and> run f2 ops2 = Some f3
           \<and> reads_of c f2 ops2 = Some (drain (pending f2 c) (capacities c ops2))
           \<and> concat (map fst (drain (pending f2 c) (capacities c ops2)))
               = take (sum_list (capacities c ops2)) (pending f2 c)
           \<and> pending f3 c = drop (sum_list (capacities c ops2)) (pending f2 c)
           \<and> (if pending f3 c = [] then client_Read f3 c n = Returns (f3, [], Some EOF)
               else client_Read f3 c n \<noteq> Returns (f3, [], Some EOF))"
proof -
  have c0: "cfg f0 = c0" using run_cfg [OF start] by (simp add: NewFanoutWriter_def)
  have c1: "cfg f1 = c0" and co1: "client_off f1 = client_off f0 @ [if ReadFromStart c0 then off f0 else tail f0]"
    and o1: "off f1 = off f0" and b1: "buf f1 = buf f0"
    using NewReader_Returns [OF created] c0 by simp_all
  have cc: "c = length (client_off f0)" using NewReader_Returns_clients [OF created] by simp
  have v1: "c < length (client_off f1)" using co1 cc by simp
  have oc1: "client_off f1 ! c = (if ReadFromStart c0 then off f0 else tail f0)"
    using co1 cc by simp
  have u1: "client_off f1 ! c \<le> tail f1" using oc1 o1 b1 by (simp add: tail_def)
  have p1: "pending f1 c = (if ReadFromStart c0 then buf f0 else [])"
    using oc1 o1 b1 by (simp add: pending_def tail_def)
  have s1: "list_all (short_write (Limit (cfg f1))) ops1" using short c1 by simp
  have l2: "off f2 \<le> client_off f2 ! c" using lv reg by (auto simp: live_def list_all_iff)
  from run_owed [OF before v1 u1 s1 reg l2] obtain log where
    u2: "client_off f2 ! c \<le> tail f2" and lg: "reads_of c f1 ops1 = Some log"
    and eq: "concat (map fst log) @ pending f2 c = pending f1 c @ accepted f1 ops1"
    by blast
  from drain_after_close [OF cl lv reg u2 ok, of n] obtain f3 where
    "run f2 ops2 = Some f3"
    "reads_of c f2 ops2 = Some (drain (pending f2 c) (capacities c ops2))"
    "concat (map fst (drain (pending f2 c) (capacities c ops2)))
       = take (sum_list (capacities c ops2)) (pending f2 c)"
    "pending f3 c = drop (sum_list (capacities c ops2)) (pending f2 c)"
    "if pending f3 c = [] then client_Read f3 c n = Returns (f3, [], Some EOF)
     else client_Read f3 c n \<noteq> Returns (f3, [], Some EOF)"
    by blast
  then show ?thesis using lg eq p1 by (intro exI [of _ log] exI [of _ f3]) simp
qed

theorem closed_writer_drains_witness:
  "run (NewFanoutWriter limit6_tail) [OpWrite [7, 7], OpNewReader]
     = Some \<lparr>buf = [], cfg = limit6_tail, off = 0, clients = [0], closed = False,
             client_off = [0]\<rparr>
   \<and> NewReader \<lparr>buf = [], cfg = limit6_tail, off = 0, clients = [0], closed = False,
             client_off = [0]\<rparr>
     = Returns (\<lparr>buf = [], cfg = limit6_tail, off = 0, clients = [1, 0], closed = False,
             client_off = [0, 0]\<rparr>, 1)
   \<and> run \<lparr>buf = [], cfg = limit6_tail, off = 0, clients = [1, 0], closed = False,
             client_off = [0, 0]\<rparr>
        [OpWrite [1, 2, 3, 4], OpRead 1 3, OpWrite [5, 6, 7, 8], OpRead 0 1, OpClose]
     = Some \<lparr>buf = [3, 4, 5, 6, 7, 8], cfg = limit6_tail, off = 2, clients = [1],
             closed = True, client_off = [0, 3]\<rparr>
   \<and> reads_of 1 \<lparr>buf = [], cfg = limit6_tail, off = 0, clients = [1, 0], closed = False,
             client_off = [0, 0]\<rparr>
        [OpWrite [1, 2, 3, 4], OpRead 1 3, OpWrite [5, 6, 7, 8], OpRead 0 1, OpClose]
     = Some [([1, 2, 3], None)]
   \<and> accepted \<lparr>buf = [], cfg = limit6_tail, off = 0, clients = [1, 0], closed = False,
             client_off = [0, 0]\<rparr>
        [OpWrite [1, 2, 3, 4], OpRead 1 3, OpWrite [5, 6, 7, 8], OpRead 0 1, OpClose]
     = [1, 2, 3, 4, 5, 6, 7, 8]
   \<and> pending \<lparr>buf = [3, 4, 5, 6, 7, 8], cfg = limit6_tail, off = 2, clients = [1],
             closed = True, client_off = [0, 3]\<rparr> 1
     = [4, 5, 6, 7, 8]
   \<and> reads_of 1 \<lparr>buf = [3, 4, 5, 6, 7, 8], cfg = limit6_tail, off = 2, clients = [1],
             closed = True, client_off = [0, 3]\<rparr>
        [OpRead 1 2, OpRead 0 5, OpRead 1 0, OpRead 1 9, OpWrite [9], OpRead 1 4]
     = Some [([4, 5], None), ([], None), ([6, 7, 8], None), ([], Some EOF)]"
proof -
  let ?f0 = "\<lparr>buf = [], cfg = limit6_tail, off = 0, clients = [0], closed = False,
              client_off = [0]\<rparr>"
  let ?f1 = "\<lparr>buf = [], cfg = limit6_tail, off = 0, clients = [1, 0], closed = False,
              client_off = [0, 0]\<rparr>"
  let ?f2 = "\<lparr>buf = [3, 4, 5, 6, 7, 8], cfg = limit6_tail, off = 2, clients = [1],
              closed = True, client_off = [0, 3]\<rparr>"
  let ?ops0 = "[OpWrite [7, 7], OpNewReader]"
  let ?ops1 = "[OpWrite [1, 2, 3, 4], OpRead 1 3, OpWrite [5, 6, 7, 8], OpRead 0 1, OpClose]"
  let ?ops2 = "[OpRead 1 2, OpRead 0 5, OpRead 1 0, OpRead 1 9, OpWrite [9], OpRead 1 4]"
  have a: "run (NewFanoutWriter limit6_tail) ?ops0 = Some ?f0" by (simp add: fw_defs)
  have b: "Buf limit6_tail = []" by (simp add: limit6_tail_def)
  have c: "NewReader ?f0 = Returns (?f1, 1)" by (simp add: fw_defs)
  have d: "run ?f1 ?ops1 = Some ?f2" by (simp add: fw_defs)
  have e: "list_all (short_write (Limit limit6_tail)) (?ops0 @ ?ops1)"
    by (simp add: limit6_tail_def)
  have g: "closed ?f2" by simp
  have h: "live ?f2" by (simp add: live_def)
  have i: "(1::nat) \<in> set (clients ?f2)" by simp
  have j: "list_all (after_close_ok (length (client_off ?f2)) 1) ?ops2" by simp
  have acc: "accepted ?f1 ?ops1 = [1, 2, 3, 4, 5, 6, 7, 8]" by (simp add: fw_defs)
  have pen: "pending ?f2 1 = [4, 5, 6, 7, 8]" by (simp add: pending_def)
  from closed_writer_drains [OF a b c d e g h i j, of 0] obtain log where
    l1: "reads_of 1 ?f1 ?ops1 = Some log"
    and l2: "concat (map fst log) @ pending ?f2 1
               = (if ReadFromStart limit6_tail then buf ?f0 else []) @ accepted ?f1 ?ops1"
    and l3: "reads_of 1 ?f2 ?ops2 = Some (drain (pending ?f2 1) (capacities 1 ?ops2))"
    by blast
  have l1': "reads_of 1 ?f1 ?ops1 = Some [([1, 2, 3], None)]" by (simp add: fw_defs)
  show ?thesis using a c d l1' acc l3 pen by simp
qed

section \<open>Without a limit\<close>

text \<open>
  When every registered reader is at or after the base offset, reads and reader closes on
  existing handles do not panic and keep that property; only a write under a limit can break
  it. So without a limit it holds in every state reachable from a new writer.
\<close>

lemma Read_live:
  assumes lv: "live f" and valid: "c < length (client_off f)"
  shows "client_Read f c n = Blocks
         \<or> (\<exists>f' d e. client_Read f c n = Returns (f', d, e) \<and> live f' \<and> cfg f' = cfg f)"
proof -
  let ?o = "client_off f ! c"
  let ?lbuf = "drop (nat (?o - off f)) (buf f)"
  consider (fell) "?o - off f > int (length (buf f)) \<or> ?o - off f < 0"
    | (idle) "\<not> (?o - off f > int (length (buf f)) \<or> ?o - off f < 0)" "?lbuf = [] \<or> n = 0"
    | (data) "\<not> (?o - off f > int (length (buf f)) \<or> ?o - off f < 0)" "\<not> (?lbuf = [] \<or> n = 0)"
    by blast
  then show ?thesis
  proof cases
    case fell
    let ?f' = "f\<lparr>clients := removeAll c (clients f)\<rparr>"
    have "client_Read f c n = Returns (?f', [], Some ErrFellBehind)"
      using fell valid by (auto simp: client_Read_def Let_def)
    moreover have "live ?f'" by (rule live_removeAll [OF lv])
    ultimately show ?thesis by simp
  next
    case idle
    then have "client_Read f c n = Blocks \<or> (\<exists>d e. client_Read f c n = Returns (f, d, e))"
      using valid by (auto simp: client_Read_def Let_def)
    then show ?thesis using lv by auto
  next
    case data
    let ?d = "take n ?lbuf"
    let ?g = "f\<lparr>client_off := (client_off f)[c := ?o + int (length ?d)]\<rparr>"
    have mpos: "0 < length ?d" using data by simp
    have lg: "live ?g" using live_advance [OF lv, of "int (length ?d)" c] by simp
    from updateOff_live [OF lg] obtain j where
      jc: "\<forall>q\<in>set (clients ?g). off ?g + j \<le> client_off ?g ! q"
      and u: "updateOff ?g = Returns (?g\<lparr>buf := drop (nat j) (buf ?g), off := off ?g + j\<rparr>)"
      by auto
    let ?f' = "?g\<lparr>buf := drop (nat j) (buf ?g), off := off ?g + j\<rparr>"
    have "client_Read f c n = Returns (?f', ?d, None)"
      using valid data mpos u by (simp add: client_Read_def Let_def)
    moreover have "live ?f'" using live_trim [OF lg jc] .
    ultimately show ?thesis by simp
  qed
qed

lemma Close_live:
  assumes lv: "live f" and valid: "c < length (client_off f)"
  shows "\<exists>f' e. client_Close f c = Returns (f', e) \<and> live f' \<and> cfg f' = cfg f"
proof -
  let ?g = "f\<lparr>clients := removeAll c (clients f)\<rparr>"
  have lg: "live ?g" by (rule live_removeAll [OF lv])
  show ?thesis
  proof (cases "off f = client_off f ! c")
    case False
    then have "client_Close f c = Returns (?g, None)"
      using valid by (simp add: client_Close_def Let_def)
    then show ?thesis using lg by simp
  next
    case True
    from updateOff_live [OF lg] obtain j where
      jc: "\<forall>q\<in>set (clients ?g). off ?g + j \<le> client_off ?g ! q"
      and u: "updateOff ?g = Returns (?g\<lparr>buf := drop (nat j) (buf ?g), off := off ?g + j\<rparr>)"
      by auto
    let ?f' = "?g\<lparr>buf := drop (nat j) (buf ?g), off := off ?g + j\<rparr>"
    have "client_Close f c = Returns (?f', None)"
      using valid True u by (simp add: client_Close_def Let_def)
    moreover have "live ?f'" using live_trim [OF lg jc] .
    ultimately show ?thesis by simp
  qed
qed

lemma NewReader_live:
  assumes lv: "live f" and r: "NewReader f = Returns (f', c)"
  shows "live f' \<and> cfg f' = cfg f"
proof -
  let ?o = "if \<not> ReadFromStart (cfg f) then off f + int (length (buf f)) else off f"
  have f': "f' = f\<lparr>client_off := client_off f @ [?o],
                  clients := List.insert (length (client_off f)) (clients f)\<rparr>"
    using r by (auto simp: NewReader_def Let_def split: if_splits)
  have "q < Suc (length (client_off f)) \<and> off f \<le> (client_off f @ [?o]) ! q"
    if "q \<in> set (clients f) \<or> q = length (client_off f)" for q
    using that lv by (auto simp: live_def list_all_iff nth_append)
  then show ?thesis unfolding f' by (auto simp: live_def list_all_iff)
qed

lemma Write_live_unbounded:
  assumes lv: "live f" and u: "Limit (cfg f) = 0" and w: "fwriter_Write f p = Returns (f', n, e)"
  shows "live f' \<and> cfg f' = cfg f"
  using assms by (auto simp: fwriter_Write_def Let_def live_def split: if_splits)

lemma step_live_unbounded:
  assumes "live f" and "Limit (cfg f) = 0" and "step f x = Some f'"
  shows "live f' \<and> Limit (cfg f') = 0"
proof (cases x)
  case (OpWrite p)
  then show ?thesis
    using assms by (auto split: outcome.splits dest: Write_live_unbounded)
next
  case OpClose
  then show ?thesis using assms by (auto simp: fwriter_Close_def live_def)
next
  case OpNewReader
  then show ?thesis using assms by (auto split: outcome.splits dest: NewReader_live)
next
  case (OpRead c n)
  show ?thesis
  proof (cases "c < length (client_off f)")
    case True
    from Read_live [OF assms(1) True, of n] show ?thesis
      using assms OpRead by (auto split: outcome.splits)
  next
    case False
    then show ?thesis using assms OpRead by (simp add: client_Read_def)
  qed
next
  case (OpCloseReader c)
  show ?thesis
  proof (cases "c < length (client_off f)")
    case True
    from Close_live [OF assms(1) True] show ?thesis
      using assms OpCloseReader by (auto split: outcome.splits)
  next
    case False
    then show ?thesis using assms OpCloseReader by (simp add: client_Close_def)
  qed
qed

lemma run_live_unbounded:
  "live f \<Longrightarrow> Limit (cfg f) = 0 \<Longrightarrow> run f xs = Some f' \<Longrightarrow> live f' \<and> Limit (cfg f') = 0"
proof (induction xs arbitrary: f)
  case Nil
  then show ?case by simp
next
  case (Cons x xs)
  from Cons.prems(3) obtain f1 where s: "step f x = Some f1" and r: "run f1 xs = Some f'"
    by (auto split: option.splits)
  from step_live_unbounded [OF Cons.prems(1,2) s] Cons.IH [OF _ _ r] show ?case by simp
qed

lemma unbounded_reachable_live:
  assumes "Limit c0 = 0" and "run (NewFanoutWriter c0) xs = Some f"
  shows "live f"
proof -
  have "live (NewFanoutWriter c0)" by (simp add: live_def NewFanoutWriter_def)
  moreover have "Limit (cfg (NewFanoutWriter c0)) = 0" using assms(1) by (simp add: NewFanoutWriter_def)
  ultimately show ?thesis using run_live_unbounded assms(2) by blast
qed

end
